theory Spec2Isabelle
  imports Main
begin

section \<open>Python strings\<close>

text \<open>
  A Python \<^verbatim>\<open>str\<close> is a sequence of Unicode code points, so a string is a list of
  natural numbers. ASCII literals are written through \<open>ustr_of\<close>; the en-dash
  (U+2013), the placeholder glyph of \<^verbatim>\<open>new.py\<close>, is code point 8211.
\<close>

type_synonym ustr = "nat list"

definition ustr_of :: "string \<Rightarrow> ustr" where
  "ustr_of s = map of_char s"

definition dash :: ustr where
  "dash = [8211]"

text \<open>
  The characters that \<^verbatim>\<open>str.strip()\<close> removes and that \<^verbatim>\<open>\s\<close> matches in a
  \<^verbatim>\<open>str\<close> pattern (CPython's \<^verbatim>\<open>Py_UNICODE_ISSPACE\<close>).
\<close>

definition is_space :: "nat \<Rightarrow> bool" where
  "is_space c = (c \<in> set [9, 10, 11, 12, 13, 28, 29, 30, 31, 32, 133, 160, 5760,
     8192, 8193, 8194, 8195, 8196, 8197, 8198, 8199, 8200, 8201, 8202,
     8232, 8233, 8239, 8287, 12288])"

text \<open>
  The characters that \<^verbatim>\<open>\d\<close> matches in a \<^verbatim>\<open>str\<close> pattern: the decimal digits
  of Unicode (general category Nd, Unicode 14 as shipped with CPython 3.11). Every
  script's digits are ten consecutive code points starting at its zero, apart from the
  fifty mathematical digits from 120782 on.
\<close>

definition decimal_zeros :: "nat list" where
  "decimal_zeros = [48, 1632, 1776, 1984, 2406, 2534, 2662, 2790, 2918, 3046, 3174,
     3302, 3430, 3558, 3664, 3792, 3872, 4160, 4240, 6112, 6160, 6470, 6608, 6784,
     6800, 6992, 7088, 7232, 7248, 42528, 43216, 43264, 43472, 43504, 43600, 44016,
     65296, 66720, 68912, 69734, 69872, 69942, 70096, 70384, 70736, 70864, 71248,
     71360, 71472, 71904, 72016, 72784, 73040, 73120, 92768, 92864, 93008, 123200,
     123632, 125264, 130032]"

definition is_decimal :: "nat \<Rightarrow> bool" where
  "is_decimal c = (list_ex (\<lambda>z. z \<le> c \<and> c < z + 10) decimal_zeros
     \<or> (120782 \<le> c \<and> c < 120832))"

text \<open>\<^verbatim>\<open>s.strip()\<close>\<close>

definition py_strip :: "ustr \<Rightarrow> ustr" where
  "py_strip s = rev (dropWhile is_space (rev (dropWhile is_space s)))"

text \<open>\<^verbatim>\<open>s.replace(old, new)\<close> for a one-character \<^verbatim>\<open>old\<close>\<close>

definition py_replace :: "nat \<Rightarrow> ustr \<Rightarrow> ustr \<Rightarrow> ustr" where
  "py_replace old new s = concat (map (\<lambda>c. if c = old then new else [c]) s)"

text \<open>\<^verbatim>\<open>sep.join(xs)\<close>\<close>

fun py_join :: "ustr \<Rightarrow> ustr list \<Rightarrow> ustr" where
  "py_join sep [] = []"
| "py_join sep [x] = x"
| "py_join sep (x # y # ys) = x @ sep @ py_join sep (y # ys)"

text \<open>
  \<^verbatim>\<open>s.lower()\<close>. Python lowers every cased letter of Unicode; the model lowers the
  ASCII letters and leaves the rest. The only use of \<^verbatim>\<open>lower\<close> in the source is the
  test \<^verbatim>\<open>'total' in text.lower()\<close>, and no code point other than
  \<^verbatim>\<open>T O A L t o a l\<close> has one of the letters t, o, a, l in its lowercase form, so the
  test has the same answer.
\<close>

definition py_lower :: "ustr \<Rightarrow> ustr" where
  "py_lower s = map (\<lambda>c. if 65 \<le> c \<and> c \<le> 90 then c + 32 else c) s"

text \<open>\<^verbatim>\<open>sub in s\<close>\<close>

fun py_in :: "ustr \<Rightarrow> ustr \<Rightarrow> bool" where
  "py_in sub [] = (sub = [])"
| "py_in sub (c # cs) = (take (length sub) (c # cs) = sub \<or> py_in sub cs)"

text \<open>
  \<^verbatim>\<open>re.sub(r'\s+', ' ', text)\<close>: scanning from the left, every maximal run of
  whitespace is replaced by one space.
\<close>

function sub_spaces :: "ustr \<Rightarrow> ustr" where
  "sub_spaces [] = []"
| "sub_spaces (c # cs) =
     (if is_space c then 32 # sub_spaces (dropWhile is_space cs) else c # sub_spaces cs)"
  by pat_completeness auto
termination
  by (relation "measure length") (auto simp: length_dropWhile_le less_Suc_eq_le)

text \<open>
  A match of \<^verbatim>\<open>(\d+)\s*%\<close> at the start of \<open>s\<close>: group 1 and the text after the
  match. Both repetitions are greedy, and giving characters back never helps (after a
  shorter run of digits comes a digit, after a shorter run of whitespace comes
  whitespace, neither is a percent sign), so the match exists exactly when the maximal
  runs are followed by \<^verbatim>\<open>%\<close> (code point 37).
\<close>

definition match_percent :: "ustr \<Rightarrow> (ustr \<times> ustr) option" where
  "match_percent s =
     (case dropWhile is_space (dropWhile is_decimal s) of
        [] \<Rightarrow> None
      | p # rest \<Rightarrow>
          if takeWhile is_decimal s \<noteq> [] \<and> p = 37
          then Some (takeWhile is_decimal s, rest) else None)"

lemma match_percent_shorter:
  "match_percent s = Some (ds, rest) \<Longrightarrow> length rest < length s"
proof -
  assume m: "match_percent s = Some (ds, rest)"
  then obtain p where p: "dropWhile is_space (dropWhile is_decimal s) = p # rest"
    by (auto simp: match_percent_def split: list.splits if_splits)
  have "length (p # rest) \<le> length (dropWhile is_decimal s)"
    unfolding p [symmetric] by (rule length_dropWhile_le)
  also have "\<dots> \<le> length s"
    by (rule length_dropWhile_le)
  finally show ?thesis by simp
qed

text \<open>
  \<^verbatim>\<open>re.sub(r'(\d+)\s*%', r'\1%', text)\<close>: at each position, from the left, a match
  is replaced by its digits and a percent sign and the scan goes on after the match;
  where there is no match the character is kept.
\<close>

function sub_percent :: "ustr \<Rightarrow> ustr" where
  "sub_percent [] = []"
| "sub_percent (c # cs) =
     (case match_percent (c # cs) of
        Some (ds, rest) \<Rightarrow> ds @ 37 # sub_percent rest
      | None \<Rightarrow> c # sub_percent cs)"
  by pat_completeness auto
termination sub_percent
  by (relation "measure length") (auto dest: match_percent_shorter)

section \<open>Cell normalization (\<^verbatim>\<open>new.py\<close>)\<close>

definition format_percentages :: "ustr \<Rightarrow> ustr" where
  "format_percentages text =
     (let text = sub_percent text in
      if py_in (ustr_of ''total'') (py_lower text) then ustr_of ''Total'' else text)"

definition clean_cell_text :: "ustr \<Rightarrow> ustr" where
  "clean_cell_text text =
     (if text = [] then []
      else
        let text = py_replace 9 (ustr_of '' '')
                    (py_replace 13 (ustr_of '' '')
                      (py_replace 10 (ustr_of '' '')
                        (py_replace 124 (ustr_of ''&#124;'') text)));
            text = py_strip (sub_spaces text)
        in format_percentages text)"

text \<open>
  \<^verbatim>\<open>str(n)\<close> for a non-negative integer, as the f-strings of \<^verbatim>\<open>test.py\<close> format
  slide numbers and shape indices.
\<close>

function str_nat :: "nat \<Rightarrow> ustr" where
  "str_nat n = (if n < 10 then [48 + n] else str_nat (n div 10) @ [48 + n mod 10])"
  by pat_completeness auto
termination
  by (relation "measure id") auto

declare str_nat.simps [simp del]

section \<open>The word-document flattener (\<^verbatim>\<open>new.py\<close>)\<close>

text \<open>
  What the flattener reads of a python-docx table: its rows, the cells of a row, and of
  a cell the texts of its paragraphs and the tables nested in it.
\<close>

datatype cell = Cell (paragraphs: "ustr list") (tables: "table list")
  and table = Table (rows: "cell list list")

text \<open>
  The body of the inner loop of \<^verbatim>\<open>extract_table_data\<close>: the text of one cell,
  \<^verbatim>\<open>clean_cell_text(' '.join(cell_text_parts))\<close> or, if that is empty, the en-dash.
\<close>

definition cell_text :: "cell \<Rightarrow> ustr" where
  "cell_text cell =
     (let cell_text_parts = filter (\<lambda>p. p \<noteq> []) (map py_strip (paragraphs cell));
          text = clean_cell_text (py_join (ustr_of '' '') cell_text_parts)
      in if text = [] then dash else text)"

definition extract_table_data :: "table \<Rightarrow> ustr list list" where
  "extract_table_data table =
     (if rows table = [] then []
      else fold (\<lambda>row table_data.
                  let row_data = map cell_text row in
                  if list_ex (\<lambda>cell. cell \<noteq> dash) row_data
                  then table_data @ [row_data] else table_data)
             (rows table) [])"

text \<open>
  \<^verbatim>\<open>while len(row) < len(header_row): row.append(dash)\<close>, on a row of
  \<^verbatim>\<open>table_data\<close>, where \<^verbatim>\<open>dash\<close> stands for the en-dash literal
\<close>

function pad_row :: "nat \<Rightarrow> ustr list \<Rightarrow> ustr list" where
  "pad_row w row = (if length row < w then pad_row w (row @ [dash]) else row)"
  by pat_completeness auto
termination
  by (relation "measure (\<lambda>(w, row). w - length row)") auto

declare pad_row.simps [simp del]

text \<open>\<^verbatim>\<open>'| ' + ' | '.join(row) + ' |'\<close>\<close>

definition md_line :: "ustr list \<Rightarrow> ustr" where
  "md_line row = ustr_of ''| '' @ py_join (ustr_of '' | '') row @ ustr_of '' |''"

text \<open>
  The lines of one table from its \<^verbatim>\<open>table_data\<close>: header line, separator line, and
  for each further row the padding loop, the slice \<^verbatim>\<open>row[:len(header_row)]\<close> and the
  row's line. \<^verbatim>\<open>process_regular_table\<close> (after its early return) and the second loop of
  \<^verbatim>\<open>process_nested_table_content\<close> (under \<^verbatim>\<open>if table_data:\<close>) hold this code twice,
  statement for statement. Neither reaches it with an empty \<^verbatim>\<open>table_data\<close>, where
  \<^verbatim>\<open>table_data[0]\<close> would raise; the model has no lines there.
\<close>

definition table_lines :: "ustr list list \<Rightarrow> ustr list" where
  "table_lines table_data =
     (case table_data of
        [] \<Rightarrow> []
      | header_row # body \<Rightarrow>
          fold (\<lambda>row result_lines.
                  let row = pad_row (length header_row) row;
                      row = take (length header_row) row
                  in result_lines @ [md_line row])
            body
            [md_line header_row,
             md_line (replicate (length header_row) (ustr_of ''---''))])"

definition process_regular_table :: "table \<Rightarrow> ustr list" where
  "process_regular_table table =
     (let table_data = extract_table_data table in
      if table_data = [] then [] else table_lines table_data)"

definition process_nested_table_content :: "table \<Rightarrow> ustr list" where
  "process_nested_table_content table =
     (let all_tables =
            fold (\<lambda>row all_tables.
                    fold (\<lambda>cell all_tables.
                            let main_content =
                                  filter (\<lambda>p. p \<noteq> []) (map py_strip (paragraphs cell))
                            in fold (\<lambda>nested_table all_tables.
                                       let table_data = extract_table_data nested_table in
                                       if table_data \<noteq> [] then all_tables @ [table_data]
                                       else all_tables)
                                 (tables cell) all_tables)
                      row all_tables)
              (rows table) []
      in fold (\<lambda>(idx, table_data) result_lines.
                 let result_lines = (if idx > 0 then result_lines @ [[]] else result_lines)
                 in if table_data \<noteq> [] then result_lines @ table_lines table_data
                    else result_lines)
           (enumerate 0 all_tables) [])"

text \<open>
  \<^verbatim>\<open>any(cell.tables for row in table.rows for cell in row.cells)\<close>
\<close>

definition has_nested_tables :: "table \<Rightarrow> bool" where
  "has_nested_tables table =
     list_ex (\<lambda>row. list_ex (\<lambda>cell. tables cell \<noteq> []) row) (rows table)"

definition process_table_proper_format :: "table \<Rightarrow> ustr list" where
  "process_table_proper_format table =
     (if rows table = [] then []
      else if has_nested_tables table then process_nested_table_content table
      else process_regular_table table)"

text \<open>
  The table branch of the loop of \<^verbatim>\<open>word_to_markdown_pages\<close>: what it does to
  \<^verbatim>\<open>current_lines\<close> for one table element of the document.
\<close>

definition word_to_markdown_pages_tbl :: "ustr list \<Rightarrow> table \<Rightarrow> ustr list" where
  "word_to_markdown_pages_tbl current_lines table =
     (let markdown_table = process_table_proper_format table in
      if markdown_table \<noteq> [] then (current_lines @ markdown_table) @ [[]]
      else current_lines)"

section \<open>The presentation flattener (\<^verbatim>\<open>test.py\<close>)\<close>

text \<open>
  Python values as far as \<^verbatim>\<open>_process_table\<close> builds them: the dictionaries it dumps
  and records are association lists in insertion order.
\<close>

datatype pyval = PyStr ustr | PyInt nat | PyList "pyval list" | PyDict "(ustr \<times> pyval) list"

text \<open>\<^verbatim>\<open>f"{v}"\<close> for a string or an integer (a shape index is either)\<close>

fun format_val :: "pyval \<Rightarrow> ustr" where
  "format_val (PyStr s) = s"
| "format_val (PyInt n) = str_nat n"
| "format_val _ = []"

text \<open>
  The fields of \<^verbatim>\<open>PowerPointToMarkdownConverter\<close> that are set in \<^verbatim>\<open>__init__\<close>.
\<close>

record converter =
  pptx_file_path :: ustr
  output_dir :: ustr
  images_dir :: ustr
  charts_dir :: ustr
  data_dir :: ustr
  doc_id :: ustr
  chart_counter :: nat
  image_counter :: nat
  chart_metadata :: "pyval list"

text \<open>
  What a file holds after \<^verbatim>\<open>_process_table\<close> opened it for writing: the value that
  \<^verbatim>\<open>json.dump\<close> serialised into it, or, when the dump raised, some beginning of that
  text.
\<close>

datatype file_content = Json pyval | Truncated

text \<open>
  What lies outside the program: the files, the lines printed, and the answers of the
  operating system that \<^verbatim>\<open>_process_table\<close> depends on: whether \<^verbatim>\<open>open(path, 'w')\<close>
  raises and whether \<^verbatim>\<open>json.dump\<close> into the opened file raises (each with the
  exception's message), and \<^verbatim>\<open>os.path.relpath\<close>.
\<close>

record world =
  files :: "ustr \<rightharpoonup> file_content"
  stdout :: "ustr list"
  open_error :: "ustr \<Rightarrow> ustr option"
  dump_error :: "ustr \<Rightarrow> ustr option"
  relpath :: "ustr \<Rightarrow> ustr \<Rightarrow> ustr"

text \<open>\<^verbatim>\<open>os.path.join(a, b)\<close> of \<^verbatim>\<open>posixpath\<close>\<close>

definition path_join :: "ustr \<Rightarrow> ustr \<Rightarrow> ustr" where
  "path_join a b =
     (if take 1 b = ustr_of ''/'' then b
      else if a = [] \<or> last a = 47 then a @ b
      else a @ ustr_of ''/'' @ b)"

text \<open>\<^verbatim>\<open>cell.text.strip().replace('\n', ' ').replace('|', '\\|')\<close>\<close>

definition slide_cell_text :: "ustr \<Rightarrow> ustr" where
  "slide_cell_text text =
     py_replace 124 [92, 124] (py_replace 10 (ustr_of '' '') (py_strip text))"

text \<open>
  The table lines of \<^verbatim>\<open>_process_table\<close>, from the cleaned rows: the first row, the
  separator \<^verbatim>\<open>"|" + "---|" * len(rows[0])\<close>, and one line for each further row as it is.
\<close>

definition slide_table_lines :: "ustr list list \<Rightarrow> ustr list" where
  "slide_table_lines table_rows =
     (case table_rows of
        [] \<Rightarrow> []
      | first # rest \<Rightarrow>
          fold (\<lambda>row markdown_table. markdown_table @ [md_line row]) rest
            [md_line first,
             ustr_of ''|'' @ concat (replicate (length first) (ustr_of ''---|''))])"

text \<open>
  \<^verbatim>\<open>f"table_{self.doc_id}_{slide_num}_{shape_idx}"\<close> and
  \<^verbatim>\<open>os.path.join(self.data_dir, f"{table_filename}.json")\<close>
\<close>

definition table_filename :: "converter \<Rightarrow> nat \<Rightarrow> pyval \<Rightarrow> ustr" where
  "table_filename self slide_num shape_idx =
     ustr_of ''table_'' @ doc_id self @ ustr_of ''_'' @ str_nat slide_num
       @ ustr_of ''_'' @ format_val shape_idx"

definition data_file :: "converter \<Rightarrow> nat \<Rightarrow> pyval \<Rightarrow> ustr" where
  "data_file self slide_num shape_idx =
     path_join (data_dir self) (table_filename self slide_num shape_idx @ ustr_of ''.json'')"

text \<open>The dictionary dumped to the data file, and the one appended to \<^verbatim>\<open>chart_metadata\<close>\<close>

definition table_data_dict :: "converter \<Rightarrow> nat \<Rightarrow> ustr list list \<Rightarrow> pyval" where
  "table_data_dict self slide_num table_rows =
     PyDict [(ustr_of ''doc_id'', PyStr (doc_id self)),
             (ustr_of ''slide_num'', PyInt slide_num),
             (ustr_of ''rows'', PyList (map (\<lambda>row. PyList (map PyStr row)) table_rows))]"

definition table_metadata :: "converter \<Rightarrow> nat \<Rightarrow> pyval \<Rightarrow> pyval" where
  "table_metadata self slide_num shape_idx =
     PyDict [(ustr_of ''doc_id'', PyStr (doc_id self)),
             (ustr_of ''slide_num'', PyInt slide_num),
             (ustr_of ''table_id'', shape_idx),
             (ustr_of ''filename'', PyStr (table_filename self slide_num shape_idx)),
             (ustr_of ''type'', PyStr (ustr_of ''table'')),
             (ustr_of ''path'', PyStr (data_file self slide_num shape_idx))]"

text \<open>
  The f-string \<^verbatim>\<open>"[View Table Data]({rel_data_path})\n"\<close> with the clipboard sign
  (code point 128203) and a space in front
\<close>

definition view_data_line :: "ustr \<Rightarrow> ustr" where
  "view_data_line rel_data_path =
     [128203] @ ustr_of '' [View Table Data]('' @ rel_data_path @ ustr_of '')'' @ [10]"

text \<open>
  \<^verbatim>\<open>_process_table(self, table_shape, slide_num, shape_idx)\<close>. The table is given by the
  text of the cells of its rows. The result is the returned dictionary's \<^verbatim>\<open>'type'\<close> and
  \<^verbatim>\<open>'content'\<close>, or \<^verbatim>\<open>None\<close>, with the converter and the world as the call leaves
  them. An exception of \<^verbatim>\<open>open\<close> or of \<^verbatim>\<open>json.dump\<close> is caught by the function's
  handler, which prints and returns \<^verbatim>\<open>None\<close>; the record is appended to
  \<^verbatim>\<open>chart_metadata\<close> only after the dump.
\<close>

definition process_table ::
  "converter \<Rightarrow> world \<Rightarrow> ustr list list \<Rightarrow> nat \<Rightarrow> pyval
     \<Rightarrow> (ustr \<times> ustr list) option \<times> converter \<times> world" where
  "process_table self w table slide_num shape_idx =
     (let table_rows =
            fold (\<lambda>row table_rows. table_rows @ [map slide_cell_text row]) table []
      in if table_rows = [] then (None, self, w)
         else
           case open_error w (data_file self slide_num shape_idx) of
             Some e \<Rightarrow>
               (None, self,
                w\<lparr>stdout := stdout w @ [ustr_of ''Error processing table: '' @ e]\<rparr>)
           | None \<Rightarrow>
               (case dump_error w (data_file self slide_num shape_idx) of
                  Some e \<Rightarrow>
                    (None, self,
                     w\<lparr>files := (files w)(data_file self slide_num shape_idx \<mapsto> Truncated),
                       stdout := stdout w @ [ustr_of ''Error processing table: '' @ e]\<rparr>)
                | None \<Rightarrow>
                    let w' = w\<lparr>files := (files w)(data_file self slide_num shape_idx \<mapsto>
                                      Json (table_data_dict self slide_num table_rows))\<rparr>;
                        self' = self\<lparr>chart_metadata := chart_metadata self @
                                  [table_metadata self slide_num shape_idx]\<rparr>;
                        markdown_table = slide_table_lines table_rows @ [[]];
                        rel_data_path =
                          relpath w (data_file self slide_num shape_idx) (output_dir self);
                        markdown_table = markdown_table @ [view_data_line rel_data_path]
                    in (Some (ustr_of ''table'', markdown_table), self', w')))"

section \<open>The word-document flattener with its lists in a store\<close>

text \<open>
  The functions above give the lines that \<^verbatim>\<open>new.py\<close> returns. To say what the code
  changes on the way, the same functions are written once more with the state they run
  in: the table of the document that the argument refers to, the world outside, and a
  store of list objects. The store holds the row lists, which the code reaches under
  two names (as elements of \<^verbatim>\<open>table_data\<close> and as the loop variable \<^verbatim>\<open>row\<close>) and
  mutates with \<^verbatim>\<open>append\<close>; a row is a reference into the store, and references from
  \<open>next_ref\<close> on are free. The lists that only one variable holds (\<^verbatim>\<open>table_data\<close>,
  \<^verbatim>\<open>all_tables\<close>, \<^verbatim>\<open>result_lines\<close>) are passed as values. The unused
  \<^verbatim>\<open>main_content\<close> is left out.
\<close>

record pystate =
  doc_table :: table
  heap :: "nat \<Rightarrow> ustr list"
  next_ref :: nat
  env :: world

text \<open>\<^verbatim>\<open>row_data = []\<close>: a new list object\<close>

definition new_list :: "pystate \<Rightarrow> nat \<times> pystate" where
  "new_list s =
     (next_ref s, s\<lparr>heap := (heap s)(next_ref s := []), next_ref := Suc (next_ref s)\<rparr>)"

text \<open>\<^verbatim>\<open>row.append(x)\<close>: the object changes, under each of its names\<close>

definition list_append :: "nat \<Rightarrow> ustr \<Rightarrow> pystate \<Rightarrow> pystate" where
  "list_append r x s = s\<lparr>heap := (heap s)(r := heap s r @ [x])\<rparr>"

text \<open>The body of the loop over the rows in \<^verbatim>\<open>extract_table_data\<close>\<close>

definition extract_row_st :: "cell list \<Rightarrow> nat list \<times> pystate \<Rightarrow> nat list \<times> pystate" where
  "extract_row_st row =
     (\<lambda>(table_data, s).
        let (row_data, s) = new_list s;
            s = fold (\<lambda>cell. list_append row_data (cell_text cell)) row s
        in if list_ex (\<lambda>cell. cell \<noteq> dash) (heap s row_data)
           then (table_data @ [row_data], s) else (table_data, s))"

definition extract_table_data_st :: "table \<Rightarrow> pystate \<Rightarrow> nat list \<times> pystate" where
  "extract_table_data_st table s =
     (if rows table = [] then ([], s) else fold extract_row_st (rows table) ([], s))"

text \<open>
  \<^verbatim>\<open>while len(row) < len(header_row): row.append(dash)\<close>, with both lengths read
  from the store each time round
\<close>

function pad_row_st :: "nat \<Rightarrow> nat \<Rightarrow> pystate \<Rightarrow> pystate" where
  "pad_row_st header_row row s =
     (if length (heap s row) < length (heap s header_row)
      then pad_row_st header_row row (list_append row dash s) else s)"
  by pat_completeness auto
termination
  by (relation "measure (\<lambda>(header_row, row, s). length (heap s header_row) - length (heap s row))")
    (auto simp: list_append_def)

declare pad_row_st.simps [simp del]

text \<open>The body of the loop over \<^verbatim>\<open>table_data[1:]\<close>; the slice is a new list\<close>

definition line_row_st :: "nat \<Rightarrow> nat \<Rightarrow> ustr list \<times> pystate \<Rightarrow> ustr list \<times> pystate" where
  "line_row_st header_row row =
     (\<lambda>(result_lines, s).
        let s = pad_row_st header_row row s;
            sliced = take (length (heap s header_row)) (heap s row)
        in (result_lines @ [md_line sliced], s))"

definition table_lines_st :: "nat list \<Rightarrow> pystate \<Rightarrow> ustr list \<times> pystate" where
  "table_lines_st table_data s =
     (case table_data of
        [] \<Rightarrow> ([], s)
      | header_row # body \<Rightarrow>
          fold (line_row_st header_row) body
            ([md_line (heap s header_row),
              md_line (replicate (length (heap s header_row)) (ustr_of ''---''))], s))"

definition process_regular_table_st :: "table \<Rightarrow> pystate \<Rightarrow> ustr list \<times> pystate" where
  "process_regular_table_st table s =
     (let (table_data, s) = extract_table_data_st table s in
      if table_data = [] then ([], s) else table_lines_st table_data s)"

text \<open>The bodies of the two loops of \<^verbatim>\<open>process_nested_table_content\<close>\<close>

definition collect_table_st ::
  "table \<Rightarrow> nat list list \<times> pystate \<Rightarrow> nat list list \<times> pystate" where
  "collect_table_st nested_table =
     (\<lambda>(all_tables, s).
        let (table_data, s) = extract_table_data_st nested_table s in
        if table_data \<noteq> [] then (all_tables @ [table_data], s) else (all_tables, s))"

definition emit_table_st ::
  "nat \<times> nat list \<Rightarrow> ustr list \<times> pystate \<Rightarrow> ustr list \<times> pystate" where
  "emit_table_st =
     (\<lambda>(idx, table_data) (result_lines, s).
        let result_lines = (if idx > 0 then result_lines @ [[]] else result_lines) in
        if table_data \<noteq> []
        then (let (ls, s) = table_lines_st table_data s in (result_lines @ ls, s))
        else (result_lines, s))"

definition process_nested_table_content_st :: "table \<Rightarrow> pystate \<Rightarrow> ustr list \<times> pystate" where
  "process_nested_table_content_st table s =
     (let (all_tables, s) =
            fold (\<lambda>row. fold (\<lambda>cell. fold collect_table_st (tables cell)) row)
              (rows table) ([], s)
      in fold emit_table_st (enumerate 0 all_tables) ([], s))"

definition process_table_proper_format_st :: "pystate \<Rightarrow> ustr list \<times> pystate" where
  "process_table_proper_format_st s =
     (let table = doc_table s in
      if rows table = [] then ([], s)
      else if has_nested_tables table then process_nested_table_content_st table s
      else process_regular_table_st table s)"

section \<open>Notions of the specification\<close>




text \<open>Table texts put one after the other, with one empty line between neighbours\<close>

fun join_blank :: "ustr list list \<Rightarrow> ustr list" where
  "join_blank [] = []"
| "join_blank [b] = b"
| "join_blank (b # c # bs) = b @ [[]] @ join_blank (c # bs)"

text \<open>The tables nested in the cells of a table, row by row and cell by cell\<close>

definition nested_tables :: "table \<Rightarrow> table list" where
  "nested_tables table = concat (map (\<lambda>row. concat (map tables row)) (rows table))"

text \<open>
  The table texts that the word-document flattener emits for a table: one for each
  nested table that has a line to emit when cells hold nested tables, else the table's
  own.
\<close>

definition table_blocks :: "table \<Rightarrow> ustr list list" where
  "table_blocks table =
     (if has_nested_tables table
      then filter (\<lambda>b. b \<noteq> []) (map process_regular_table (nested_tables table))
      else [process_regular_table table])"

text \<open>The same table with other paragraphs in its own cells (the nested tables stay)\<close>

definition map_paragraphs :: "(ustr list \<Rightarrow> ustr list) \<Rightarrow> table \<Rightarrow> table" where
  "map_paragraphs f table =
     Table (map (map (\<lambda>cell. Cell (f (paragraphs cell)) (tables cell))) (rows table))"

text \<open>
  The text that \<^verbatim>\<open>format_percentages\<close> tests for \<^verbatim>\<open>total\<close>: the cell text of
  \<^verbatim>\<open>clean_cell_text\<close> after every step but the substitution of \<^verbatim>\<open>Total\<close>.
\<close>

definition before_total :: "ustr \<Rightarrow> ustr" where
  "before_total text =
     sub_percent (py_strip (sub_spaces
       (py_replace 9 (ustr_of '' '')
         (py_replace 13 (ustr_of '' '')
           (py_replace 10 (ustr_of '' '')
             (py_replace 124 (ustr_of ''&#124;'') text))))))"

text \<open>A cell without text: every character of every paragraph is whitespace\<close>

definition blank_cell :: "cell \<Rightarrow> bool" where
  "blank_cell cell = list_all (list_all is_space) (paragraphs cell)"

text \<open>
  Shapes of a text, for the proofs: whitespace only as single spaces, none at the ends,
  and a percent sign first.
\<close>

fun single_spaced :: "ustr \<Rightarrow> bool" where
  "single_spaced [] = True"
| "single_spaced (c # cs) =
     ((if is_space c then c = 32 \<and> (cs = [] \<or> \<not> is_space (hd cs)) else True)
      \<and> single_spaced cs)"

definition trimmed :: "ustr \<Rightarrow> bool" where
  "trimmed s = (s = [] \<or> (\<not> is_space (hd s) \<and> \<not> is_space (last s)))"

definition starts37 :: "ustr \<Rightarrow> bool" where
  "starts37 s = (case s of [] \<Rightarrow> False | p # _ \<Rightarrow> p = 37)"

text \<open>
  A character that no step of the normalization touches: no whitespace, no digit, no
  percent sign and no pipe.
\<close>

definition plain :: "nat \<Rightarrow> bool" where
  "plain c = (\<not> is_space c \<and> \<not> is_decimal c \<and> c \<noteq> 37 \<and> c \<noteq> 124)"

text \<open>A converter and a world to run the presentation flattener in\<close>

definition demo_converter :: converter where
  "demo_converter =
     \<lparr>pptx_file_path = ustr_of ''deck.pptx'', output_dir = ustr_of ''out'',
      images_dir = ustr_of ''out/images'', charts_dir = ustr_of ''out/charts'',
      data_dir = ustr_of ''out/data'', doc_id = ustr_of ''d1'',
      chart_counter = 0, image_counter = 0, chart_metadata = []\<rparr>"

definition demo_world :: world where
  "demo_world =
     \<lparr>files = Map.empty, stdout = [], open_error = (\<lambda>path. None),
      dump_error = (\<lambda>path. None),
      relpath = (\<lambda>path start. drop (length start + 1) path)\<rparr>"

text \<open>
  A call changes fresh lists only: the table of the document and the world are as
  before, and so is every list that existed before the call.
\<close>

definition only_fresh :: "pystate \<Rightarrow> pystate \<Rightarrow> bool" where
  "only_fresh s s' =
     (doc_table s' = doc_table s \<and> env s' = env s \<and> next_ref s \<le> next_ref s'
      \<and> (\<forall>r<next_ref s. heap s' r = heap s r))"

text \<open>
  A state to run the word-document flattener in: a table with a short second row, and
  one list in the store before the call
\<close>

definition demo_state :: pystate where
  "demo_state =
     \<lparr>doc_table = Table [[Cell [ustr_of ''A''] [], Cell [ustr_of ''B''] []],
                         [Cell [ustr_of ''x''] []]],
      heap = (\<lambda>r. [])(0 := [ustr_of ''kept'']), next_ref = 1, env = demo_world\<rparr>"

section \<open>Characters\<close>

lemma space_not_decimal: "is_space c \<Longrightarrow> \<not> is_decimal c"
  apply (simp add: is_space_def)
  apply (elim disjE)
  apply (simp_all add: is_decimal_def decimal_zeros_def)
  done

lemma decimal_not_space: "is_decimal c \<Longrightarrow> \<not> is_space c"
  using space_not_decimal by blast

lemma space_32 [simp]: "is_space 32"
  by (simp add: is_space_def)

lemma percent_plain [simp]: "\<not> is_space 37" "\<not> is_decimal 37"
  by (simp_all add: is_space_def is_decimal_def decimal_zeros_def)

subsection \<open>sub_spaces\<close>

lemma sub_spaces_Nil_iff [simp]: "sub_spaces s = [] \<longleftrightarrow> s = []"
  by (cases s) auto

lemma hd_sub_spaces: "s \<noteq> [] \<Longrightarrow> \<not> is_space (hd s) \<Longrightarrow> hd (sub_spaces s) = hd s"
  by (cases s) auto

lemma dropWhile_head: "dropWhile P s = [] \<or> \<not> P (hd (dropWhile P s))"
  using hd_dropWhile by blast

lemma single_spaced_sub_spaces: "single_spaced (sub_spaces s)"
proof (induction s rule: sub_spaces.induct)
  case 1
  show ?case by simp
next
  case (2 c cs)
  show ?case
  proof (cases "is_space c")
    case True
    have "dropWhile is_space cs = [] \<or> \<not> is_space (hd (sub_spaces (dropWhile is_space cs)))"
    proof (cases "dropWhile is_space cs = []")
      case True
      then show ?thesis by simp
    next
      case False
      then have "\<not> is_space (hd (dropWhile is_space cs))" by (rule hd_dropWhile)
      with False show ?thesis by (simp add: hd_sub_spaces)
    qed
    with True 2 show ?thesis by simp
  next
    case False
    with 2 show ?thesis by simp
  qed
qed

lemma sub_spaces_fixed: "single_spaced s \<Longrightarrow> sub_spaces s = s"
proof (induction s)
  case Nil
  show ?case by simp
next
  case (Cons c cs)
  show ?case
  proof (cases "is_space c")
    case True
    with Cons.prems have c: "c = 32" and h: "cs = [] \<or> \<not> is_space (hd cs)" by auto
    from h have "dropWhile is_space cs = cs" by (cases cs) auto
    with True c Cons show ?thesis by simp
  next
    case False
    with Cons show ?thesis by simp
  qed
qed

lemma sub_spaces_set: "x \<in> set (sub_spaces s) \<Longrightarrow> x = 32 \<or> (x \<in> set s \<and> \<not> is_space x)"
proof (induction s rule: sub_spaces.induct)
  case 1
  then show ?case by simp
next
  case (2 c cs)
  then show ?case
    by (auto split: if_splits dest: set_dropWhileD)
qed

lemma single_spaced_append: "single_spaced (a @ b) \<Longrightarrow> single_spaced a \<and> single_spaced b"
proof (induction a)
  case Nil
  then show ?case by simp
next
  case (Cons c cs)
  then show ?case by (cases cs) (auto split: if_splits)
qed

lemma single_spaced_plain_prefix:
  "\<forall>c\<in>set a. \<not> is_space c \<Longrightarrow> single_spaced (a @ b) = single_spaced b"
  by (induction a) auto

subsection \<open>py_strip\<close>

lemma py_strip_decomp: "\<exists>a b. s = a @ py_strip s @ b"
proof -
  have "rev (dropWhile is_space s) =
      takeWhile is_space (rev (dropWhile is_space s)) @ dropWhile is_space (rev (dropWhile is_space s))"
    by simp
  then have "rev (rev (dropWhile is_space s)) =
      rev (takeWhile is_space (rev (dropWhile is_space s)) @ dropWhile is_space (rev (dropWhile is_space s)))"
    by (rule arg_cong)
  then have "dropWhile is_space s = py_strip s @ rev (takeWhile is_space (rev (dropWhile is_space s)))"
    by (simp only: rev_rev_ident rev_append py_strip_def)
  moreover have "s = takeWhile is_space s @ dropWhile is_space s" by simp
  ultimately have "s = takeWhile is_space s @ py_strip s @ rev (takeWhile is_space (rev (dropWhile is_space s)))"
    by simp
  then show ?thesis by blast
qed

lemma single_spaced_py_strip: "single_spaced s \<Longrightarrow> single_spaced (py_strip s)"
proof -
  assume s: "single_spaced s"
  obtain a b where "s = a @ py_strip s @ b" using py_strip_decomp by blast
  with s have "single_spaced (a @ py_strip s @ b)" by simp
  then show ?thesis using single_spaced_append by blast
qed

lemma py_strip_set: "x \<in> set (py_strip s) \<Longrightarrow> x \<in> set s"
proof -
  obtain a b where "s = a @ py_strip s @ b" using py_strip_decomp by blast
  then have "set s = set a \<union> set (py_strip s) \<union> set b" by (metis set_append Un_assoc)
  then show "x \<in> set (py_strip s) \<Longrightarrow> x \<in> set s" by blast
qed

lemma trimmed_py_strip: "trimmed (py_strip s)"
proof -
  let ?d = "dropWhile is_space s"
  let ?r = "dropWhile is_space (rev ?d)"
  show ?thesis
  proof (cases "?r = []")
    case True
    then show ?thesis by (simp add: trimmed_def py_strip_def)
  next
    case False
    then have l: "\<not> is_space (hd ?r)" using hd_dropWhile by blast
    have dn: "?d \<noteq> []"
    proof
      assume "?d = []"
      then have "?r = []" by (simp only: rev.simps dropWhile.simps)
      with False show False by blast
    qed
    then have h: "\<not> is_space (hd ?d)" using hd_dropWhile by blast
    have "rev (rev ?d) = rev (takeWhile is_space (rev ?d) @ ?r)"
      by (simp only: takeWhile_dropWhile_id)
    then have b: "?d = rev ?r @ rev (takeWhile is_space (rev ?d))"
      by (simp only: rev_rev_ident rev_append)
    define b where "b = rev (takeWhile is_space (rev ?d))"
    with \<open>?d = rev ?r @ rev (takeWhile is_space (rev ?d))\<close> have b: "?d = rev ?r @ b" by simp
    from False have "hd (rev ?r @ b) = hd (rev ?r)" by simp
    with b h have "\<not> is_space (hd (rev ?r))" by simp
    moreover from l False have "\<not> is_space (last (rev ?r))" by (simp add: last_rev)
    ultimately show ?thesis by (simp add: trimmed_def py_strip_def)
  qed
qed

lemma py_strip_fixed: "trimmed s \<Longrightarrow> py_strip s = s"
proof (cases "s = []")
  case True
  then show ?thesis by (simp add: py_strip_def)
next
  case False
  assume "trimmed s"
  with False have h: "\<not> is_space (hd s)" and l: "\<not> is_space (last s)"
    by (auto simp: trimmed_def)
  from False h have 1: "dropWhile is_space s = s" by (cases s) auto
  from False obtain a as where r: "rev s = a # as" by (cases "rev s") auto
  then have "hd (rev s) = a" by simp
  with l have "\<not> is_space a" by (simp add: hd_rev)
  with r have 2: "dropWhile is_space (rev s) = rev s" by simp
  show ?thesis by (simp add: py_strip_def 1 2)
qed

subsection \<open>sub_percent\<close>

lemma match_percent_SomeD:
  assumes "match_percent s = Some (ds, rest)"
  shows "ds = takeWhile is_decimal s" and "ds \<noteq> []"
    and "s = ds @ takeWhile is_space (dropWhile is_decimal s) @ 37 # rest"
proof -
  from assms obtain p where p: "dropWhile is_space (dropWhile is_decimal s) = p # rest"
    and ds: "ds = takeWhile is_decimal s" and ne: "takeWhile is_decimal s \<noteq> []" and p37: "p = 37"
    by (auto simp: match_percent_def split: list.splits if_splits)
  show "ds = takeWhile is_decimal s" by (rule ds)
  show "ds \<noteq> []" using ds ne by simp
  have "dropWhile is_decimal s =
      takeWhile is_space (dropWhile is_decimal s) @ dropWhile is_space (dropWhile is_decimal s)"
    by simp
  then have "dropWhile is_decimal s = takeWhile is_space (dropWhile is_decimal s) @ 37 # rest"
    using p p37 by simp
  moreover have "s = takeWhile is_decimal s @ dropWhile is_decimal s" by simp
  ultimately show "s = ds @ takeWhile is_space (dropWhile is_decimal s) @ 37 # rest"
    using ds by simp
qed

lemma match_percent_digits:
  assumes "ds \<noteq> []" and "\<forall>d\<in>set ds. is_decimal d"
  shows "match_percent (ds @ 37 # X) = Some (ds, X)"
proof -
  from assms(2) have "takeWhile is_decimal (ds @ 37 # X) = ds"
    by (simp add: takeWhile_append2)
  moreover from assms(2) have "dropWhile is_decimal (ds @ 37 # X) = 37 # X"
    by (simp add: dropWhile_append2)
  ultimately show ?thesis using assms(1) by (simp add: match_percent_def)
qed

lemma match_percent_nondigit: "\<not> is_decimal c \<Longrightarrow> match_percent (c # cs) = None"
  by (simp add: match_percent_def split: list.splits)

lemma sub_percent_Nil_iff [simp]: "sub_percent s = [] \<longleftrightarrow> s = []"
  by (cases s) (auto split: option.splits dest: match_percent_SomeD(2))

lemma hd_sub_percent: "hd (sub_percent s) = hd s"
proof (cases s)
  case Nil
  then show ?thesis by simp
next
  case (Cons c cs)
  show ?thesis
  proof (cases "match_percent (c # cs)")
    case None
    with Cons show ?thesis by simp
  next
    case (Some a)
    obtain ds rest where a: "a = (ds, rest)" by (cases a)
    from Some a have "ds = takeWhile is_decimal (c # cs)" and "ds \<noteq> []"
      by (auto dest: match_percent_SomeD)
    then have "hd ds = c" by (auto split: if_splits)
    with Some a Cons \<open>ds \<noteq> []\<close> show ?thesis by simp
  qed
qed

lemma last_sub_percent: "s \<noteq> [] \<Longrightarrow> last (sub_percent s) = last s"
proof (induction s rule: sub_percent.induct)
  case 1
  then show ?case by simp
next
  case (2 c cs)
  show ?case
  proof (cases "match_percent (c # cs)")
    case None
    with "2.IH"(1) show ?thesis by simp
  next
    case (Some a)
    obtain ds rest where a: "a = (ds, rest)" by (cases a)
    from Some a have s: "c # cs = ds @ takeWhile is_space (dropWhile is_decimal (c # cs)) @ 37 # rest"
      by (auto dest: match_percent_SomeD(3))
    have "last (c # cs) = last (37 # rest)"
      by (subst s) simp
    moreover have "last (sub_percent (c # cs)) = last (37 # sub_percent rest)"
      using Some a by simp
    moreover have "last (37 # sub_percent rest) = last (37 # rest)"
      using "2.IH"(2) [OF Some a [symmetric]] by (cases "rest = []") auto
    ultimately show ?thesis by simp
  qed
qed

lemma sub_percent_set: "x \<in> set (sub_percent s) \<Longrightarrow> x \<in> set s"
proof (induction s arbitrary: x rule: sub_percent.induct)
  case 1
  then show ?case by simp
next
  case (2 c cs)
  show ?case
  proof (cases "match_percent (c # cs)")
    case None
    with "2.IH"(1) "2.prems" show ?thesis by auto
  next
    case (Some a)
    obtain ds rest where a: "a = (ds, rest)" by (cases a)
    from Some a have s: "c # cs = ds @ takeWhile is_space (dropWhile is_decimal (c # cs)) @ 37 # rest"
      by (auto dest: match_percent_SomeD(3))
    have "set (ds @ 37 # rest) \<subseteq> set (c # cs)"
      by (subst s) auto
    moreover from "2.prems" Some a have "x \<in> set (ds @ 37 # sub_percent rest)" by simp
    then have "x \<in> set (ds @ 37 # rest)"
      using "2.IH"(2) [OF Some a [symmetric]] by auto
    ultimately show ?thesis by blast
  qed
qed

lemma single_spaced_sub_percent: "single_spaced s \<Longrightarrow> single_spaced (sub_percent s)"
proof (induction s rule: sub_percent.induct)
  case 1
  then show ?case by simp
next
  case (2 c cs)
  show ?case
  proof (cases "match_percent (c # cs)")
    case None
    from "2.prems" have cs: "single_spaced cs" by simp
    have "single_spaced (sub_percent cs)" using "2.IH"(1) [OF None cs] .
    moreover have "hd (sub_percent cs) = hd cs" by (rule hd_sub_percent)
    ultimately show ?thesis using None "2.prems" by simp
  next
    case (Some a)
    obtain ds rest where a: "a = (ds, rest)" by (cases a)
    from Some a have s: "c # cs = ds @ takeWhile is_space (dropWhile is_decimal (c # cs)) @ 37 # rest"
      and ds: "ds = takeWhile is_decimal (c # cs)"
      by (auto dest: match_percent_SomeD)
    from "2.prems" have "single_spaced ((ds @ takeWhile is_space (dropWhile is_decimal (c # cs)) @ [37]) @ rest)"
      by (subst (asm) s) simp
    then have "single_spaced rest" using single_spaced_append by blast
    then have "single_spaced (sub_percent rest)" using "2.IH"(2) [OF Some a [symmetric]] by simp
    moreover have "\<forall>d\<in>set (ds @ [37]). \<not> is_space d"
      using ds by (auto dest: set_takeWhileD decimal_not_space)
    ultimately have "single_spaced ((ds @ [37]) @ sub_percent rest)"
      by (simp only: single_spaced_plain_prefix)
    with Some a show ?thesis by simp
  qed
qed

lemma trimmed_sub_percent: "trimmed s \<Longrightarrow> trimmed (sub_percent s)"
  by (auto simp: trimmed_def hd_sub_percent last_sub_percent)

lemma starts37_dropWhile_sub_percent:
  "starts37 (dropWhile is_space (sub_percent s)) = starts37 (dropWhile is_space s)"
proof (induction s)
  case Nil
  then show ?case by simp
next
  case (Cons c cs)
  show ?case
  proof (cases "is_space c")
    case True
    then have "match_percent (c # cs) = None"
      by (simp add: match_percent_nondigit space_not_decimal)
    with True Cons show ?thesis by simp
  next
    case False
    have "sub_percent (c # cs) \<noteq> []" by (simp only: sub_percent_Nil_iff) simp
    moreover have "hd (sub_percent (c # cs)) = c" by (simp only: hd_sub_percent list.sel)
    ultimately obtain ys where "sub_percent (c # cs) = c # ys"
      by (cases "sub_percent (c # cs)") auto
    with False show ?thesis by (simp add: starts37_def)
  qed
qed

lemma starts37_lead_sub_percent:
  "starts37 (dropWhile is_space (dropWhile is_decimal (sub_percent s)))
     = starts37 (dropWhile is_space (dropWhile is_decimal s))"
proof (induction s rule: sub_percent.induct)
  case 1
  then show ?case by simp
next
  case (2 c cs)
  show ?case
  proof (cases "match_percent (c # cs)")
    case None
    show ?thesis
    proof (cases "is_decimal c")
      case True
      with None "2.IH"(1) show ?thesis by simp
    next
      case False
      with None show ?thesis
        using starts37_dropWhile_sub_percent [of "c # cs"] by simp
    qed
  next
    case (Some a)
    obtain ds rest where a: "a = (ds, rest)" by (cases a)
    from Some a have s: "c # cs = ds @ takeWhile is_space (dropWhile is_decimal (c # cs)) @ 37 # rest"
      and ds: "ds = takeWhile is_decimal (c # cs)"
      by (auto dest: match_percent_SomeD)
    from Some a obtain p where "dropWhile is_space (dropWhile is_decimal (c # cs)) = p # rest" "p = 37"
      by (auto simp: match_percent_def split: list.splits if_splits)
    then have r: "starts37 (dropWhile is_space (dropWhile is_decimal (c # cs)))"
      by (simp add: starts37_def)
    have dd: "\<forall>d\<in>set ds. is_decimal d" using ds by (auto dest: set_takeWhileD)
    have "dropWhile is_decimal (ds @ 37 # sub_percent rest) = 37 # sub_percent rest"
      using dd by (simp add: dropWhile_append2)
    then have "starts37 (dropWhile is_space (dropWhile is_decimal (ds @ 37 # sub_percent rest)))"
      by (simp add: starts37_def)
    with r Some a show ?thesis by simp
  qed
qed

lemma match_percent_None_iff:
  "is_decimal c \<Longrightarrow>
     match_percent (c # cs) = None \<longleftrightarrow> \<not> starts37 (dropWhile is_space (dropWhile is_decimal cs))"
proof -
  assume c: "is_decimal c"
  show ?thesis
  proof (cases "dropWhile is_space (dropWhile is_decimal cs)")
    case Nil
    with c show ?thesis
      by (simp add: match_percent_def starts37_def del: dropWhile_eq_Nil_conv)
  next
    case (Cons p rest)
    with c show ?thesis
      by (simp add: match_percent_def starts37_def del: dropWhile_eq_Nil_conv)
  qed
qed

lemma match_percent_None_sub_percent:
  assumes "match_percent (c # cs) = None"
  shows "match_percent (c # sub_percent cs) = None"
proof (cases "is_decimal c")
  case True
  with assms show ?thesis
    by (simp add: match_percent_None_iff starts37_lead_sub_percent)
next
  case False
  then show ?thesis by (rule match_percent_nondigit)
qed

lemma sub_percent_idem: "sub_percent (sub_percent s) = sub_percent s"
proof (induction s rule: sub_percent.induct)
  case 1
  then show ?case by simp
next
  case (2 c cs)
  show ?case
  proof (cases "match_percent (c # cs)")
    case None
    then have "match_percent (c # sub_percent cs) = None"
      by (rule match_percent_None_sub_percent)
    with None "2.IH"(1) show ?thesis by simp
  next
    case (Some a)
    obtain ds rest where a: "a = (ds, rest)" by (cases a)
    from Some a have ds: "ds = takeWhile is_decimal (c # cs)" and ne: "ds \<noteq> []"
      by (auto dest: match_percent_SomeD)
    have dd: "\<forall>d\<in>set ds. is_decimal d" using ds by (auto dest: set_takeWhileD)
    obtain d ds' where dc: "ds = d # ds'" using ne by (cases ds) auto
    have m: "match_percent (ds @ 37 # sub_percent rest) = Some (ds, sub_percent rest)"
      using ne dd by (rule match_percent_digits)
    have "sub_percent (ds @ 37 # sub_percent rest) = ds @ 37 # sub_percent (sub_percent rest)"
      using m unfolding dc by simp
    with Some a "2.IH"(2) [OF Some a [symmetric]] show ?thesis by simp
  qed
qed

subsection \<open>clean_cell_text\<close>

lemma py_replace_absent: "old \<notin> set s \<Longrightarrow> py_replace old new s = s"
  by (induction s) (auto simp: py_replace_def)

lemma py_replace_set:
  "x \<in> set (py_replace old new s) \<Longrightarrow> x \<in> set new \<or> (x \<in> set s \<and> x \<noteq> old)"
  by (auto simp: py_replace_def split: if_splits)

lemma before_total_Nil [simp]: "before_total [] = []"
  by (simp add: before_total_def py_replace_def py_strip_def)

lemma clean_cell_text_eq:
  "clean_cell_text t =
     (if t = [] then []
      else if py_in (ustr_of ''total'') (py_lower (before_total t)) then ustr_of ''Total''
      else before_total t)"
  by (simp add: clean_cell_text_def format_percentages_def before_total_def Let_def)

lemma before_total_chars:
  assumes "x \<in> set (before_total t)"
  shows "x = 32 \<or> (\<not> is_space x \<and> x \<noteq> 124)"
proof -
  let ?w = "py_replace 9 (ustr_of '' '') (py_replace 13 (ustr_of '' '')
     (py_replace 10 (ustr_of '' '') (py_replace 124 (ustr_of ''&#124;'') t)))"
  from assms have "x \<in> set (py_strip (sub_spaces ?w))"
    unfolding before_total_def by (rule sub_percent_set)
  then have "x \<in> set (sub_spaces ?w)" by (rule py_strip_set)
  then have "x = 32 \<or> (x \<in> set ?w \<and> \<not> is_space x)" by (rule sub_spaces_set)
  moreover have "x \<in> set ?w \<Longrightarrow> x \<noteq> 124"
    by (auto dest!: py_replace_set simp: ustr_of_def)
  ultimately show ?thesis by blast
qed

lemma before_total_single_spaced: "single_spaced (before_total t)"
  unfolding before_total_def
  by (intro single_spaced_sub_percent single_spaced_py_strip single_spaced_sub_spaces)

lemma before_total_trimmed: "trimmed (before_total t)"
  unfolding before_total_def
  by (intro trimmed_sub_percent trimmed_py_strip)

lemma before_total_fixed: "before_total (before_total t) = before_total t"
proof -
  let ?u = "before_total t"
  have sp: "is_space 9" "is_space 10" "is_space 13" by (simp_all add: is_space_def)
  have no: "9 \<notin> set ?u" "10 \<notin> set ?u" "13 \<notin> set ?u" "124 \<notin> set ?u"
    using before_total_chars [of _ t] sp by fastforce+
  have r: "py_replace 9 (ustr_of '' '') (py_replace 13 (ustr_of '' '')
     (py_replace 10 (ustr_of '' '') (py_replace 124 (ustr_of ''&#124;'') ?u))) = ?u"
    using no by (simp add: py_replace_absent)
  have "sub_spaces ?u = ?u"
    by (rule sub_spaces_fixed) (rule before_total_single_spaced)
  moreover have "py_strip ?u = ?u"
    by (rule py_strip_fixed) (rule before_total_trimmed)
  moreover have "sub_percent ?u = ?u"
    unfolding before_total_def by (rule sub_percent_idem)
  ultimately show ?thesis
    by (subst before_total_def) (simp only: r)
qed

lemma clean_Total: "clean_cell_text (ustr_of ''Total'') = ustr_of ''Total''"
  by (simp add: clean_cell_text_def format_percentages_def py_replace_def py_strip_def
      py_lower_def match_percent_def ustr_of_def is_space_def is_decimal_def decimal_zeros_def)

lemma clean_cell_text_cases:
  "clean_cell_text t = [] \<or> clean_cell_text t = ustr_of ''Total''
     \<or> clean_cell_text t = before_total t"
  by (simp add: clean_cell_text_eq)

lemma clean_cell_text_fixed: "clean_cell_text (clean_cell_text t) = clean_cell_text t"
proof (cases "t = [] \<or> py_in (ustr_of ''total'') (py_lower (before_total t))")
  case True
  show ?thesis
  proof (cases "t = []")
    case True
    have "clean_cell_text [] = []" by (simp add: clean_cell_text_def)
    with True show ?thesis by simp
  next
    case False
    with True have "clean_cell_text t = ustr_of ''Total''"
      by (simp add: clean_cell_text_eq)
    then show ?thesis by (simp only: clean_Total)
  qed
next
  case False
  then have 1: "clean_cell_text t = before_total t"
    by (simp add: clean_cell_text_eq)
  show ?thesis
    unfolding 1 using False
    by (simp add: clean_cell_text_eq [of "before_total t"] before_total_fixed)
qed

lemma clean_cell_text_trimmed: "trimmed (clean_cell_text t)"
proof -
  have "trimmed []" by (simp add: trimmed_def)
  moreover have "trimmed (ustr_of ''Total'')"
    by (simp add: trimmed_def ustr_of_def is_space_def)
  ultimately show ?thesis
    using clean_cell_text_cases [of t] before_total_trimmed [of t] by auto
qed

subsection \<open>Words that survive the normalization\<close>

lemma takeWhile_stop: "\<not> P x \<Longrightarrow> takeWhile P (a @ x # r) = takeWhile P a"
  by (induction a) auto

lemma dropWhile_stop: "\<not> P x \<Longrightarrow> dropWhile P (a @ x # r) = dropWhile P a @ x # r"
  by (induction a) auto

lemma py_replace_append: "py_replace old new (a @ b) = py_replace old new a @ py_replace old new b"
  by (simp add: py_replace_def)

lemma py_replace_keeps:
  assumes "old \<notin> set m"
  shows "py_replace old new (a @ m @ b) = py_replace old new a @ m @ py_replace old new b"
  using assms by (simp add: py_replace_append py_replace_absent)

lemma sub_spaces_plain_run: "\<forall>c\<in>set m. \<not> is_space c \<Longrightarrow> sub_spaces (m @ b) = m @ sub_spaces b"
  by (induction m) auto

lemma sub_spaces_before:
  "\<not> is_space x \<Longrightarrow> \<exists>a'. sub_spaces (a @ x # r) = a' @ sub_spaces (x # r)"
proof (induction a rule: sub_spaces.induct)
  case 1
  show ?case by (rule exI [of _ "[]"]) simp
next
  case (2 c cs)
  show ?case
  proof (cases "is_space c")
    case True
    with 2 obtain a' where
      "sub_spaces (dropWhile is_space cs @ x # r) = a' @ sub_spaces (x # r)" by blast
    with True 2(3) have "sub_spaces ((c # cs) @ x # r) = (32 # a') @ sub_spaces (x # r)"
      by (simp add: dropWhile_stop)
    then show ?thesis by blast
  next
    case False
    with 2 obtain a' where "sub_spaces (cs @ x # r) = a' @ sub_spaces (x # r)" by blast
    with False have "sub_spaces ((c # cs) @ x # r) = (c # a') @ sub_spaces (x # r)" by simp
    then show ?thesis by blast
  qed
qed

lemma sub_spaces_keeps:
  assumes "m \<noteq> []" and "\<forall>c\<in>set m. \<not> is_space c"
  shows "\<exists>a' b'. sub_spaces (a @ m @ b) = a' @ m @ b'"
proof -
  from assms(1) obtain x m' where m: "m = x # m'" by (cases m) auto
  with assms(2) have "\<not> is_space x" by simp
  then obtain a' where "sub_spaces (a @ x # (m' @ b)) = a' @ sub_spaces (x # (m' @ b))"
    using sub_spaces_before by blast
  moreover have "sub_spaces (m @ b) = m @ sub_spaces b"
    using assms(2) by (rule sub_spaces_plain_run)
  ultimately have "sub_spaces (a @ m @ b) = a' @ m @ sub_spaces b"
    by (simp add: m)
  then show ?thesis by blast
qed

lemma dropWhile_keeps:
  assumes "m \<noteq> []" and "\<forall>c\<in>set m. \<not> P c"
  shows "\<exists>a'. dropWhile P (a @ m @ b) = a' @ m @ b"
proof -
  from assms(1) obtain x m' where m: "m = x # m'" by (cases m) auto
  with assms(2) have "\<not> P x" by simp
  then have "dropWhile P (a @ x # (m' @ b)) = dropWhile P a @ x # (m' @ b)"
    by (rule dropWhile_stop)
  then show ?thesis by (auto simp: m)
qed

lemma py_strip_keeps:
  assumes "m \<noteq> []" and "\<forall>c\<in>set m. \<not> is_space c"
  shows "\<exists>a' b'. py_strip (a @ m @ b) = a' @ m @ b'"
proof -
  from assms obtain a' where 1: "dropWhile is_space (a @ m @ b) = a' @ m @ b"
    using dropWhile_keeps by blast
  from assms have "rev m \<noteq> []" and "\<forall>c\<in>set (rev m). \<not> is_space c" by auto
  then obtain b' where "dropWhile is_space (rev b @ rev m @ rev a') = b' @ rev m @ rev a'"
    using dropWhile_keeps by blast
  with 1 have "py_strip (a @ m @ b) = a' @ m @ rev b'"
    by (simp add: py_strip_def)
  then show ?thesis by blast
qed

lemma match_percent_before:
  assumes "plain x"
  shows "match_percent (a @ x # r) =
     (case match_percent a of None \<Rightarrow> None | Some (ds, rest) \<Rightarrow> Some (ds, rest @ x # r))"
proof -
  from assms have x: "\<not> is_decimal x" "\<not> is_space x" "x \<noteq> 37" by (auto simp: plain_def)
  have t: "takeWhile is_decimal (a @ x # r) = takeWhile is_decimal a"
    using x(1) by (rule takeWhile_stop)
  have d: "dropWhile is_space (dropWhile is_decimal (a @ x # r)) =
      dropWhile is_space (dropWhile is_decimal a) @ x # r"
    using x(1,2) by (simp add: dropWhile_stop)
  show ?thesis
  proof (cases "dropWhile is_space (dropWhile is_decimal a)")
    case Nil
    with x(3) show ?thesis
      by (simp add: match_percent_def t d del: dropWhile_eq_Nil_conv)
  next
    case (Cons p rest)
    then show ?thesis
      by (simp add: match_percent_def t d del: dropWhile_eq_Nil_conv)
  qed
qed

lemma sub_percent_before:
  "plain x \<Longrightarrow> \<exists>a'. sub_percent (a @ x # r) = a' @ sub_percent (x # r)"
proof (induction a rule: sub_percent.induct)
  case 1
  show ?case by (rule exI [of _ "[]"]) simp
next
  case (2 c cs)
  show ?case
  proof (cases "match_percent (c # cs)")
    case None
    with 2 obtain a' where "sub_percent (cs @ x # r) = a' @ sub_percent (x # r)" by blast
    with None "2.prems" have "sub_percent ((c # cs) @ x # r) = (c # a') @ sub_percent (x # r)"
      using match_percent_before [of x "c # cs" r] by simp
    then show ?thesis by blast
  next
    case (Some p)
    obtain ds rest where p: "p = (ds, rest)" by (cases p)
    from "2.IH"(2) [OF Some p [symmetric] "2.prems"]
    obtain a' where "sub_percent (rest @ x # r) = a' @ sub_percent (x # r)" by blast
    with Some p "2.prems"
    have "sub_percent ((c # cs) @ x # r) = (ds @ 37 # a') @ sub_percent (x # r)"
      using match_percent_before [of x "c # cs" r] by simp
    then show ?thesis by blast
  qed
qed

lemma sub_percent_plain_run: "\<forall>c\<in>set m. plain c \<Longrightarrow> sub_percent (m @ b) = m @ sub_percent b"
  by (induction m) (auto simp: match_percent_nondigit plain_def)

lemma sub_percent_keeps:
  assumes "m \<noteq> []" and "\<forall>c\<in>set m. plain c"
  shows "\<exists>a' b'. sub_percent (a @ m @ b) = a' @ m @ b'"
proof -
  from assms(1) obtain x m' where m: "m = x # m'" by (cases m) auto
  with assms(2) have "plain x" by simp
  then obtain a' where "sub_percent (a @ x # (m' @ b)) = a' @ sub_percent (x # (m' @ b))"
    using sub_percent_before by blast
  moreover have "sub_percent (m @ b) = m @ sub_percent b"
    using assms(2) by (rule sub_percent_plain_run)
  ultimately have "sub_percent (a @ m @ b) = a' @ m @ sub_percent b"
    by (simp add: m)
  then show ?thesis by blast
qed

lemma before_total_keeps:
  assumes "m \<noteq> []" and "\<forall>c\<in>set m. plain c"
  shows "\<exists>a' b'. before_total (a @ m @ b) = a' @ m @ b'"
proof -
  have sp: "is_space 9" "is_space 10" "is_space 13" by (simp_all add: is_space_def)
  from assms(2) have ns: "\<forall>c\<in>set m. \<not> is_space c" by (simp add: plain_def)
  with sp have no: "9 \<notin> set m" "10 \<notin> set m" "13 \<notin> set m" by blast+
  from assms(2) have "124 \<notin> set m" by (auto simp: plain_def)
  with no obtain a1 b1 where
    "py_replace 9 (ustr_of '' '') (py_replace 13 (ustr_of '' '')
       (py_replace 10 (ustr_of '' '') (py_replace 124 (ustr_of ''&#124;'') (a @ m @ b))))
     = a1 @ m @ b1"
    by (simp add: py_replace_keeps)
  moreover obtain a2 b2 where "sub_spaces (a1 @ m @ b1) = a2 @ m @ b2"
    using sub_spaces_keeps [OF assms(1) ns] by blast
  moreover obtain a3 b3 where "py_strip (a2 @ m @ b2) = a3 @ m @ b3"
    using py_strip_keeps [OF assms(1) ns] by blast
  moreover obtain a4 b4 where "sub_percent (a3 @ m @ b3) = a4 @ m @ b4"
    using sub_percent_keeps [OF assms] by blast
  ultimately have "before_total (a @ m @ b) = a4 @ m @ b4"
    by (simp add: before_total_def)
  then show ?thesis by blast
qed

lemma py_in_infix: "py_in sub (a @ sub @ b)"
proof (induction a)
  case Nil
  show ?case
  proof (cases "sub @ b")
    case Nil
    then show ?thesis by simp
  next
    case (Cons c cs)
    have "take (length sub) (sub @ b) = sub" by simp
    then have "take (length sub) (c # cs) = sub" by (simp only: Cons)
    then have "py_in sub (c # cs)" by simp
    then show ?thesis by (simp only: Cons append_Nil)
  qed
next
  case (Cons x a)
  then show ?case by simp
qed

lemma py_in_decomp: "py_in sub s \<Longrightarrow> \<exists>a b. s = a @ sub @ b"
proof (induction s)
  case Nil
  then show ?case by simp
next
  case (Cons c cs)
  show ?case
  proof (cases "take (length sub) (c # cs) = sub")
    case True
    then have "c # cs = [] @ sub @ drop (length sub) (c # cs)"
      by (metis append_Nil append_take_drop_id)
    then show ?thesis by blast
  next
    case False
    with Cons obtain a b where "cs = a @ sub @ b" by auto
    then have "c # cs = (c # a) @ sub @ b" by simp
    then show ?thesis by blast
  qed
qed

lemma py_lower_total_plain:
  assumes "py_lower m = ustr_of ''total''"
  shows "m \<noteq> [] \<and> (\<forall>c\<in>set m. plain c)"
proof
  from assms show "m \<noteq> []" by (auto simp: py_lower_def ustr_of_def)
  have l: "\<forall>c\<in>set (py_lower m). c \<in> {116, 111, 97, 108}"
    unfolding assms by (simp add: ustr_of_def)
  have p: "plain c" if "c \<in> {116, 111, 97, 108, 84, 79, 65, 76}" for c
    using that
    by (elim insertE emptyE) (simp_all add: plain_def is_space_def is_decimal_def decimal_zeros_def)
  show "\<forall>c\<in>set m. plain c"
  proof
    fix c assume "c \<in> set m"
    then have "(if 65 \<le> c \<and> c \<le> 90 then c + 32 else c) \<in> set (py_lower m)"
      by (simp add: py_lower_def)
    with l have "(if 65 \<le> c \<and> c \<le> 90 then c + 32 else c) \<in> {116, 111, 97, 108}"
      by blast
    then have "c \<in> {116, 111, 97, 108, 84, 79, 65, 76}"
      by (auto split: if_splits)
    then show "plain c" by (rule p)
  qed
qed

lemma mentions_total_kept:
  assumes "py_in (ustr_of ''total'') (py_lower t)"
  shows "py_in (ustr_of ''total'') (py_lower (before_total t))"
proof -
  from assms obtain x y where "py_lower t = x @ ustr_of ''total'' @ y"
    using py_in_decomp by blast
  then have "map (\<lambda>c. if 65 \<le> c \<and> c \<le> 90 then c + 32 else c) t = x @ ustr_of ''total'' @ y"
    by (simp add: py_lower_def)
  then obtain a r where 1: "t = a @ r"
    and "ustr_of ''total'' @ y = map (\<lambda>c. if 65 \<le> c \<and> c \<le> 90 then c + 32 else c) r"
    unfolding map_eq_append_conv by blast
  then obtain m b where 2: "r = m @ b"
    and "ustr_of ''total'' = map (\<lambda>c. if 65 \<le> c \<and> c \<le> 90 then c + 32 else c) m"
    unfolding append_eq_map_conv by blast
  then have t: "t = a @ m @ b" and m: "py_lower m = ustr_of ''total''"
    using 1 by (simp_all add: py_lower_def)
  from m have "m \<noteq> []" and "\<forall>c\<in>set m. plain c"
    using py_lower_total_plain by blast+
  then obtain a' b' where "before_total (a @ m @ b) = a' @ m @ b'"
    using before_total_keeps by blast
  then have "py_lower (before_total t) = py_lower a' @ ustr_of ''total'' @ py_lower b'"
    using m by (simp add: t py_lower_def)
  then show ?thesis by (simp only: py_in_infix)
qed

section \<open>The loops as list functions\<close>

lemma pad_row_eq: "pad_row w row = row @ replicate (w - length row) dash"
proof (induction w row rule: pad_row.induct)
  case (1 w row)
  show ?case
  proof (cases "length row < w")
    case True
    then have "pad_row w row = pad_row w (row @ [dash])"
      by (subst pad_row.simps) simp
    also have "\<dots> = (row @ [dash]) @ replicate (w - length (row @ [dash])) dash"
      using 1 True by simp
    also have "\<dots> = row @ replicate (Suc (w - Suc (length row))) dash"
      by simp
    also have "Suc (w - Suc (length row)) = w - length row"
      using True by simp
    finally show ?thesis .
  next
    case False
    then show ?thesis by (subst pad_row.simps) simp
  qed
qed

lemma repaired_row:
  "take w (pad_row w row) =
     (if length row < w then row @ replicate (w - length row) dash else take w row)"
  by (simp add: pad_row_eq)



lemma fold_snoc_if:
  "fold (\<lambda>x acc. if P (f x) then acc @ [f x] else acc) xs acc = acc @ filter P (map f xs)"
  by (induction xs arbitrary: acc) auto

lemma fold_snoc_map: "fold (\<lambda>x acc. acc @ [f x]) xs acc = acc @ map f xs"
  by (induction xs arbitrary: acc) auto

lemma fold_append_concat: "fold (\<lambda>x acc. acc @ h x) xs acc = acc @ concat (map h xs)"
  by (induction xs arbitrary: acc) auto

lemma extract_table_data_eq:
  "extract_table_data t =
     filter (list_ex (\<lambda>c. c \<noteq> dash)) (map (map cell_text) (rows t))"
  by (simp add: extract_table_data_def Let_def fold_snoc_if)

lemma table_lines_Cons:
  "table_lines (header_row # body) =
     md_line header_row # md_line (replicate (length header_row) (ustr_of ''---''))
       # map (\<lambda>row. md_line (take (length header_row) (pad_row (length header_row) row))) body"
  by (simp add: table_lines_def Let_def fold_snoc_map)

lemma table_lines_Nil [simp]: "table_lines [] = []"
  by (simp add: table_lines_def)

lemma table_lines_Nil_iff [simp]: "table_lines td = [] \<longleftrightarrow> td = []"
  by (cases td) (simp_all add: table_lines_Cons)

lemma process_regular_table_eq: "process_regular_table t = table_lines (extract_table_data t)"
  by (simp add: process_regular_table_def Let_def)

lemma join_blank_Cons: "join_blank (b # bs) = b @ concat (map (\<lambda>c. [] # c) bs)"
  by (induction bs arbitrary: b) auto

lemma render_from:
  "0 < n \<Longrightarrow>
   fold (\<lambda>(idx, table_data) result_lines.
           let result_lines = (if idx > 0 then result_lines @ [[]] else result_lines)
           in if table_data \<noteq> [] then result_lines @ table_lines table_data
              else result_lines)
     (enumerate n tds) acc
   = acc @ concat (map (\<lambda>td. [] # table_lines td) tds)"
proof (induction tds arbitrary: n acc)
  case Nil
  then show ?case by simp
next
  case (Cons td tds)
  from Cons.prems Cons.IH [of "Suc n"] show ?case
    by (cases "td = []") (simp_all add: Let_def)
qed

lemma render_all:
  "fold (\<lambda>(idx, table_data) result_lines.
           let result_lines = (if idx > 0 then result_lines @ [[]] else result_lines)
           in if table_data \<noteq> [] then result_lines @ table_lines table_data
              else result_lines)
     (enumerate 0 tds) []
   = join_blank (map table_lines tds)"
proof (cases tds)
  case Nil
  then show ?thesis by simp
next
  case (Cons td tds')
  have "0 < Suc 0" by simp
  note r = render_from [OF this, of tds' "table_lines td"]
  show ?thesis
    unfolding Cons using r
    by (cases "td = []") (simp_all add: Let_def join_blank_Cons o_def)
qed

lemma collect_tables:
  "fold (\<lambda>row all_tables.
           fold (\<lambda>cell all_tables.
                   let main_content =
                         filter (\<lambda>p. p \<noteq> []) (map py_strip (paragraphs cell))
                   in fold (\<lambda>nested_table all_tables.
                              let table_data = extract_table_data nested_table in
                              if table_data \<noteq> [] then all_tables @ [table_data]
                              else all_tables)
                        (tables cell) all_tables)
             row all_tables)
     (rows t) []
   = filter (\<lambda>td. td \<noteq> []) (map extract_table_data (nested_tables t))"
proof -
  have inner: "\<And>ts acc. fold (\<lambda>nested_table all_tables.
                              let table_data = extract_table_data nested_table in
                              if table_data \<noteq> [] then all_tables @ [table_data]
                              else all_tables) ts acc
      = acc @ filter (\<lambda>td. td \<noteq> []) (map extract_table_data ts)"
  proof -
    fix ts acc
    show "fold (\<lambda>nested_table all_tables.
                              let table_data = extract_table_data nested_table in
                              if table_data \<noteq> [] then all_tables @ [table_data]
                              else all_tables) ts acc
      = acc @ filter (\<lambda>td. td \<noteq> []) (map extract_table_data ts)"
      by (induction ts arbitrary: acc) (simp_all add: Let_def)
  qed
  have cells: "\<And>row acc. fold (\<lambda>cell all_tables.
                   let main_content =
                         filter (\<lambda>p. p \<noteq> []) (map py_strip (paragraphs cell))
                   in fold (\<lambda>nested_table all_tables.
                              let table_data = extract_table_data nested_table in
                              if table_data \<noteq> [] then all_tables @ [table_data]
                              else all_tables)
                        (tables cell) all_tables) row acc
      = acc @ filter (\<lambda>td. td \<noteq> []) (map extract_table_data (concat (map tables row)))"
  proof -
    fix row :: "cell list" and acc
    show "fold (\<lambda>cell all_tables.
                   let main_content =
                         filter (\<lambda>p. p \<noteq> []) (map py_strip (paragraphs cell))
                   in fold (\<lambda>nested_table all_tables.
                              let table_data = extract_table_data nested_table in
                              if table_data \<noteq> [] then all_tables @ [table_data]
                              else all_tables)
                        (tables cell) all_tables) row acc
      = acc @ filter (\<lambda>td. td \<noteq> []) (map extract_table_data (concat (map tables row)))"
      by (induction row arbitrary: acc) (simp_all only: inner, simp_all add: Let_def)
  qed
  have "fold (\<lambda>row all_tables.
           fold (\<lambda>cell all_tables.
                   let main_content =
                         filter (\<lambda>p. p \<noteq> []) (map py_strip (paragraphs cell))
                   in fold (\<lambda>nested_table all_tables.
                              let table_data = extract_table_data nested_table in
                              if table_data \<noteq> [] then all_tables @ [table_data]
                              else all_tables)
                        (tables cell) all_tables)
             row all_tables)
     rs acc
   = acc @ filter (\<lambda>td. td \<noteq> []) (map extract_table_data (concat (map (\<lambda>row. concat (map tables row)) rs)))" for rs acc
    by (induction rs arbitrary: acc) (simp_all only: fold_simps o_apply id_apply cells, simp_all)
  from this [of "rows t" "[]"] show ?thesis
    by (simp add: nested_tables_def)
qed

lemma process_nested_table_content_eq:
  "process_nested_table_content t =
     join_blank (filter (\<lambda>b. b \<noteq> []) (map process_regular_table (nested_tables t)))"
proof -
  have "map table_lines (filter (\<lambda>td. td \<noteq> []) (map extract_table_data (nested_tables t)))
      = filter (\<lambda>b. b \<noteq> []) (map process_regular_table (nested_tables t))"
    by (simp add: filter_map o_def process_regular_table_eq)
  moreover have "process_nested_table_content t =
      join_blank (map table_lines
        (filter (\<lambda>td. td \<noteq> []) (map extract_table_data (nested_tables t))))"
    apply (simp only: process_nested_table_content_def)
    apply (simp only: collect_tables)
    apply (simp only: render_all)
    apply (simp only: Let_def)
    done
  ultimately show ?thesis by simp
qed

section \<open>Cell texts\<close>



lemma cell_text_not_Nil: "cell_text c \<noteq> []"
  by (simp add: cell_text_def Let_def dash_def)

lemma py_strip_blank: "list_all is_space p \<Longrightarrow> py_strip p = []"
proof -
  assume "list_all is_space p"
  then have "dropWhile is_space p = []" by (simp add: list_all_iff)
  then show ?thesis by (simp only: py_strip_def rev.simps dropWhile.simps)
qed

lemma blank_cell_text: "blank_cell c \<Longrightarrow> cell_text c = dash"
proof -
  assume "blank_cell c"
  then have "\<forall>p\<in>set (paragraphs c). py_strip p = []"
    by (simp add: blank_cell_def list_all_iff py_strip_blank)
  then have "filter (\<lambda>p. p \<noteq> []) (map py_strip (paragraphs c)) = []"
    by (simp add: filter_empty_conv)
  then show ?thesis
    by (simp add: cell_text_def clean_cell_text_def)
qed


lemma extract_table_data_rows: "row \<in> set (extract_table_data t) \<Longrightarrow> row \<noteq> []"
  by (auto simp: extract_table_data_eq)

section \<open>Counting fields\<close>








section \<open>The presentation flattener\<close>

lemma slide_table_lines_Cons:
  "slide_table_lines (first # rest) =
     md_line first # (ustr_of ''|'' @ concat (replicate (length first) (ustr_of ''---|'')))
       # map md_line rest"
  by (simp add: slide_table_lines_def fold_snoc_map)

lemma slide_rows:
  "fold (\<lambda>row table_rows. table_rows @ [map slide_cell_text row]) table [] =
     map (map slide_cell_text) table"
  by (simp add: fold_snoc_map)




lemma process_table_result:
  "process_table self w table slide_num shape_idx =
     (if table = [] then (None, self, w)
      else case open_error w (data_file self slide_num shape_idx) of
        Some e \<Rightarrow>
          (None, self, w\<lparr>stdout := stdout w @ [ustr_of ''Error processing table: '' @ e]\<rparr>)
      | None \<Rightarrow>
          (case dump_error w (data_file self slide_num shape_idx) of
             Some e \<Rightarrow>
               (None, self,
                w\<lparr>files := (files w)(data_file self slide_num shape_idx \<mapsto> Truncated),
                  stdout := stdout w @ [ustr_of ''Error processing table: '' @ e]\<rparr>)
           | None \<Rightarrow>
               (Some (ustr_of ''table'',
                  slide_table_lines (map (map slide_cell_text) table) @
                    [[], view_data_line
                           (relpath w (data_file self slide_num shape_idx) (output_dir self))]),
                self\<lparr>chart_metadata := chart_metadata self @
                       [table_metadata self slide_num shape_idx]\<rparr>,
                w\<lparr>files := (files w)(data_file self slide_num shape_idx \<mapsto>
                      Json (table_data_dict self slide_num (map (map slide_cell_text) table)))\<rparr>)))"
  by (simp add: process_table_def Let_def slide_rows split: option.splits)

lemma process_table_changes:
  assumes "table \<noteq> []"
  shows "snd (process_table self w table slide_num shape_idx) \<noteq> (self, w)"
proof (cases "open_error w (data_file self slide_num shape_idx) = None
    \<and> dump_error w (data_file self slide_num shape_idx) = None")
  case True
  have "chart_metadata (fst (snd (process_table self w table slide_num shape_idx)))
      = chart_metadata self @ [table_metadata self slide_num shape_idx]"
    using assms True by (simp add: process_table_result)
  then have "chart_metadata (fst (snd (process_table self w table slide_num shape_idx)))
      \<noteq> chart_metadata self" by simp
  then show ?thesis by (metis fst_conv)
next
  case False
  then have "\<exists>e. stdout (snd (snd (process_table self w table slide_num shape_idx)))
      = stdout w @ [ustr_of ''Error processing table: '' @ e]"
    using assms by (auto simp: process_table_result split: option.splits)
  then have "stdout (snd (snd (process_table self w table slide_num shape_idx))) \<noteq> stdout w"
    by auto
  then show ?thesis by (metis snd_conv)
qed

section \<open>Whole tables\<close>

lemmas run_new = ustr_of_def dash_def is_space_def is_decimal_def decimal_zeros_def py_strip_def
  py_replace_def py_lower_def match_percent_def format_percentages_def clean_cell_text_def
  cell_text_def extract_table_data_def md_line_def table_lines_def process_regular_table_def
  pad_row.simps process_nested_table_content_def has_nested_tables_def
  process_table_proper_format_def word_to_markdown_pages_tbl_def enumerate_eq_zip

lemmas run_test = ustr_of_def is_space_def py_strip_def py_replace_def md_line_def
  slide_cell_text_def slide_table_lines_def process_table_def path_join_def str_nat.simps
  table_filename_def data_file_def table_data_dict_def table_metadata_def view_data_line_def
  demo_converter_def demo_world_def

lemma has_nested_tables_rows: "has_nested_tables t \<Longrightarrow> rows t \<noteq> []"
  by (auto simp: has_nested_tables_def)

lemma process_regular_table_no_rows: "rows t = [] \<Longrightarrow> process_regular_table t = []"
  by (simp add: process_regular_table_eq extract_table_data_eq)

lemma process_table_proper_format_blocks:
  "process_table_proper_format t = join_blank (table_blocks t)"
proof (cases "has_nested_tables t")
  case True
  then show ?thesis
    by (simp add: process_table_proper_format_def table_blocks_def has_nested_tables_rows
        process_nested_table_content_eq)
next
  case False
  then show ?thesis
    by (simp add: process_table_proper_format_def table_blocks_def process_regular_table_no_rows)
qed


lemma md_line_not_Nil: "md_line row \<noteq> []" "[] \<noteq> md_line row"
  by (simp_all add: md_line_def ustr_of_def)

lemma table_lines_no_blank: "[] \<notin> set (table_lines td)"
  by (cases td) (auto simp: table_lines_Cons md_line_not_Nil)

lemma process_regular_table_no_blank: "[] \<notin> set (process_regular_table t)"
  by (simp add: process_regular_table_eq table_lines_no_blank)

lemma last_join_blank:
  "bs \<noteq> [] \<Longrightarrow> \<forall>b\<in>set bs. b \<noteq> [] \<and> [] \<notin> set b \<Longrightarrow> last (join_blank bs) \<noteq> []"
proof (induction bs rule: join_blank.induct)
  case 1
  then show ?case by simp
next
  case (2 b)
  then have "b \<noteq> []" and n: "[] \<notin> set b" by auto
  then have "last b \<in> set b" by simp
  with n have "last b \<noteq> []" by metis
  then show ?case by simp
next
  case (3 b c bs)
  then have "join_blank (c # bs) \<noteq> []" by (cases bs) auto
  with 3 show ?case by simp
qed

lemma last_process_table_proper_format:
  assumes "process_table_proper_format t \<noteq> []"
  shows "last (process_table_proper_format t) \<noteq> []"
proof -
  have j: "process_table_proper_format t = join_blank (table_blocks t)"
    by (rule process_table_proper_format_blocks)
  show ?thesis
  proof (cases "has_nested_tables t")
    case True
    then have "\<forall>b\<in>set (table_blocks t). b \<noteq> [] \<and> [] \<notin> set b"
      by (auto simp: table_blocks_def process_regular_table_no_blank)
    moreover from assms j have "table_blocks t \<noteq> []" by auto
    ultimately show ?thesis unfolding j by (rule last_join_blank [rotated])
  next
    case False
    then have "process_table_proper_format t = process_regular_table t"
      by (simp add: j table_blocks_def)
    with assms show ?thesis
      using process_regular_table_no_blank [of t] last_in_set [of "process_regular_table t"]
      by metis
  qed
qed

lemma slide_table_lines_no_blank: "[] \<notin> set (slide_table_lines table_rows)"
proof (cases table_rows)
  case Nil
  then show ?thesis by (simp add: slide_table_lines_def)
next
  case (Cons first rest)
  then show ?thesis
    by (auto simp: slide_table_lines_Cons md_line_not_Nil ustr_of_def)
qed

lemma process_table_content:
  "fst (process_table self w table slide_num shape_idx) =
     (if table = [] \<or> open_error w (data_file self slide_num shape_idx) \<noteq> None
         \<or> dump_error w (data_file self slide_num shape_idx) \<noteq> None
      then None
      else Some (ustr_of ''table'',
        slide_table_lines (map (map slide_cell_text) table) @
          [[], view_data_line
                 (relpath w (data_file self slide_num shape_idx) (output_dir self))]))"
  by (auto simp: process_table_result split: option.splits)

lemma extract_table_data_drop_row:
  assumes "\<not> list_ex (\<lambda>c. c \<noteq> dash) (map cell_text row)"
  shows "extract_table_data (Table (pre @ row # post)) = extract_table_data (Table (pre @ post))"
  using assms by (simp add: extract_table_data_eq)

lemma has_nested_tables_map_paragraphs [simp]:
  "has_nested_tables (map_paragraphs f t) = has_nested_tables t"
  by (simp add: has_nested_tables_def map_paragraphs_def list_ex_iff)

lemma nested_tables_map_paragraphs [simp]:
  "nested_tables (map_paragraphs f t) = nested_tables t"
  by (simp add: nested_tables_def map_paragraphs_def o_def)

lemma clean_dash: "clean_cell_text dash = dash"
  by (simp add: run_new)

lemma cell_text_again: "cell_text (Cell [cell_text c] []) = cell_text c"
proof -
  define u where "u = cell_text c"
  have ne: "u \<noteq> []" unfolding u_def by (rule cell_text_not_Nil)
  have "u = dash \<or> (\<exists>t. u = clean_cell_text t)"
    unfolding u_def by (auto simp: cell_text_def Let_def)
  then have fx: "clean_cell_text u = u" and tr: "trimmed u"
    using clean_dash clean_cell_text_fixed clean_cell_text_trimmed
    by (auto simp: trimmed_def dash_def is_space_def)
  from tr have "py_strip u = u" by (rule py_strip_fixed)
  with ne fx have "cell_text (Cell [u] []) = u"
    by (simp add: cell_text_def)
  then show ?thesis by (simp only: u_def)
qed

section \<open>The store\<close>

lemma only_fresh_refl [simp]: "only_fresh s s"
  by (simp add: only_fresh_def)

lemma only_fresh_trans: "only_fresh s s1 \<Longrightarrow> only_fresh s1 s2 \<Longrightarrow> only_fresh s s2"
  by (auto simp: only_fresh_def)

lemma fill_row:
  "fold (\<lambda>cell. list_append r (cell_text cell)) row s =
     s\<lparr>heap := (heap s)(r := heap s r @ map cell_text row)\<rparr>"
proof (induction row arbitrary: s)
  case Nil
  show ?case by simp
next
  case (Cons c row)
  have "fold (\<lambda>cell. list_append r (cell_text cell)) (c # row) s =
      fold (\<lambda>cell. list_append r (cell_text cell)) row (list_append r (cell_text c) s)"
    by simp
  also have "\<dots> = (list_append r (cell_text c) s)\<lparr>heap :=
      (heap (list_append r (cell_text c) s))
        (r := heap (list_append r (cell_text c) s) r @ map cell_text row)\<rparr>"
    by (rule Cons)
  also have "\<dots> = s\<lparr>heap := (heap s)(r := heap s r @ map cell_text (c # row))\<rparr>"
    by (simp add: list_append_def)
  finally show ?case .
qed

lemma extract_row_st_eq:
  "extract_row_st row (td, s) =
     ((if list_ex (\<lambda>c. c \<noteq> dash) (map cell_text row) then td @ [next_ref s] else td),
      s\<lparr>heap := (heap s)(next_ref s := map cell_text row), next_ref := Suc (next_ref s)\<rparr>)"
  by (simp add: extract_row_st_def new_list_def fill_row Let_def)

lemma extract_rows_st:
  assumes "fold extract_row_st rws (td, s) = (td', s')"
  shows "only_fresh s s'
    \<and> (\<exists>new. td' = td @ new
          \<and> map (heap s') new = filter (list_ex (\<lambda>c. c \<noteq> dash)) (map (map cell_text) rws)
          \<and> distinct new \<and> (\<forall>r\<in>set new. next_ref s \<le> r \<and> r < next_ref s'))"
  using assms
proof (induction rws arbitrary: td s)
  case Nil
  then show ?case by simp
next
  case (Cons row rws)
  let ?n = "next_ref s"
  let ?s1 = "s\<lparr>heap := (heap s)(?n := map cell_text row), next_ref := Suc ?n\<rparr>"
  let ?td1 = "if list_ex (\<lambda>c. c \<noteq> dash) (map cell_text row) then td @ [?n] else td"
  from Cons.prems have "fold extract_row_st rws (?td1, ?s1) = (td', s')"
    by (simp add: extract_row_st_eq)
  from Cons.IH [OF this] obtain new where f: "only_fresh ?s1 s'" and t: "td' = ?td1 @ new"
    and m: "map (heap s') new = filter (list_ex (\<lambda>c. c \<noteq> dash)) (map (map cell_text) rws)"
    and d: "distinct new" and r: "\<forall>r\<in>set new. Suc ?n \<le> r \<and> r < next_ref s'"
    by auto
  from f have h: "heap s' ?n = map cell_text row" and le: "Suc ?n \<le> next_ref s'"
    by (auto simp: only_fresh_def)
  from f have 1: "only_fresh s s'" by (auto simp: only_fresh_def)
  show ?case
  proof (cases "list_ex (\<lambda>c. c \<noteq> dash) (map cell_text row)")
    case True
    with t have "td' = td @ (?n # new)" by simp
    moreover from True m h have "map (heap s') (?n # new) =
        filter (list_ex (\<lambda>c. c \<noteq> dash)) (map (map cell_text) (row # rws))" by simp
    moreover from d r have "distinct (?n # new)" by auto
    moreover from r le have "\<forall>r\<in>set (?n # new). ?n \<le> r \<and> r < next_ref s'" by auto
    ultimately show ?thesis using 1 by blast
  next
    case False
    with t have "td' = td @ new" by simp
    moreover from False m have "map (heap s') new =
        filter (list_ex (\<lambda>c. c \<noteq> dash)) (map (map cell_text) (row # rws))" by simp
    moreover from r have "\<forall>r\<in>set new. ?n \<le> r \<and> r < next_ref s'" by auto
    ultimately show ?thesis using 1 d by blast
  qed
qed

lemma extract_table_data_st:
  assumes "extract_table_data_st table s = (td, s')"
  shows "only_fresh s s'" and "map (heap s') td = extract_table_data table"
    and "distinct td" and "\<forall>r\<in>set td. next_ref s \<le> r \<and> r < next_ref s'"
proof -
  have "fold extract_row_st (rows table) ([], s) = (td, s')"
    using assms by (cases "rows table = []") (auto simp: extract_table_data_st_def)
  from extract_rows_st [OF this]
  show "only_fresh s s'" and "map (heap s') td = extract_table_data table"
    and "distinct td" and "\<forall>r\<in>set td. next_ref s \<le> r \<and> r < next_ref s'"
    by (auto simp: extract_table_data_eq)
qed

lemma pad_row_st_eq:
  "pad_row_st h r s = s\<lparr>heap := (heap s)(r := pad_row (length (heap s h)) (heap s r))\<rparr>"
proof (induction h r s rule: pad_row_st.induct)
  case (1 h r s)
  show ?case
  proof (cases "length (heap s r) < length (heap s h)")
    case True
    then have ne: "r \<noteq> h" by auto
    let ?s1 = "list_append r dash s"
    have "pad_row_st h r s = pad_row_st h r ?s1"
      using True by (subst pad_row_st.simps) simp
    also have "\<dots> = ?s1\<lparr>heap := (heap ?s1)(r := pad_row (length (heap ?s1 h)) (heap ?s1 r))\<rparr>"
      using True by (rule 1)
    also have "\<dots> = s\<lparr>heap := (heap s)(r := pad_row (length (heap s h)) (heap s r @ [dash]))\<rparr>"
      using ne by (simp add: list_append_def)
    also have "pad_row (length (heap s h)) (heap s r @ [dash]) = pad_row (length (heap s h)) (heap s r)"
      using True by (subst (2) pad_row.simps) simp
    finally show ?thesis .
  next
    case False
    then have "pad_row (length (heap s h)) (heap s r) = heap s r"
      by (subst pad_row.simps) simp
    with False show ?thesis by (subst pad_row_st.simps) simp
  qed
qed

lemma line_row_st_eq:
  "r \<noteq> h \<Longrightarrow>
   line_row_st h r (ls, s) =
     (ls @ [md_line (take (length (heap s h)) (pad_row (length (heap s h)) (heap s r)))],
      s\<lparr>heap := (heap s)(r := pad_row (length (heap s h)) (heap s r))\<rparr>)"
  by (simp add: line_row_st_def pad_row_st_eq Let_def)

lemma line_rows_st:
  assumes "h \<notin> set body" and "distinct body"
    and "fold (line_row_st h) body (ls, s) = (ls', s')"
  shows "ls' = ls @ map (\<lambda>r. md_line (take (length (heap s h))
                                 (pad_row (length (heap s h)) (heap s r)))) body
    \<and> doc_table s' = doc_table s \<and> env s' = env s \<and> next_ref s' = next_ref s
    \<and> (\<forall>r. r \<notin> set body \<longrightarrow> heap s' r = heap s r)"
  using assms
proof (induction body arbitrary: ls s)
  case Nil
  then show ?case by simp
next
  case (Cons r body)
  let ?w = "length (heap s h)"
  let ?s1 = "s\<lparr>heap := (heap s)(r := pad_row ?w (heap s r))\<rparr>"
  let ?ls1 = "ls @ [md_line (take ?w (pad_row ?w (heap s r)))]"
  from Cons.prems have rh: "r \<noteq> h" and hb: "h \<notin> set body" and rb: "r \<notin> set body"
    and db: "distinct body" by auto
  from Cons.prems(3) rh have "fold (line_row_st h) body (?ls1, ?s1) = (ls', s')"
    by (simp add: line_row_st_eq)
  from Cons.IH [OF hb db this]
  have 1: "ls' = ?ls1 @ map (\<lambda>q. md_line (take (length (heap ?s1 h))
                                 (pad_row (length (heap ?s1 h)) (heap ?s1 q)))) body"
    and 2: "doc_table s' = doc_table ?s1" "env s' = env ?s1" "next_ref s' = next_ref ?s1"
    and 3: "\<forall>q. q \<notin> set body \<longrightarrow> heap s' q = heap ?s1 q"
    by auto
  have "map (\<lambda>q. md_line (take (length (heap ?s1 h))
                                 (pad_row (length (heap ?s1 h)) (heap ?s1 q)))) body
      = map (\<lambda>q. md_line (take ?w (pad_row ?w (heap s q)))) body"
    using rh rb by (auto simp: rh [symmetric])
  with 1 have "ls' = ls @ map (\<lambda>q. md_line (take ?w (pad_row ?w (heap s q)))) (r # body)"
    by simp
  moreover from 3 have "\<forall>q. q \<notin> set (r # body) \<longrightarrow> heap s' q = heap s q" by auto
  ultimately show ?case using 2 by simp
qed

lemma table_lines_st:
  assumes "distinct td" and "table_lines_st td s = (ls, s')"
  shows "ls = table_lines (map (heap s) td) \<and> doc_table s' = doc_table s
    \<and> env s' = env s \<and> next_ref s' = next_ref s
    \<and> (\<forall>r. r \<notin> set td \<longrightarrow> heap s' r = heap s r)"
proof (cases td)
  case Nil
  with assms(2) show ?thesis by (simp add: table_lines_st_def)
next
  case (Cons h body)
  with assms(1) have hb: "h \<notin> set body" and db: "distinct body" by auto
  from assms(2) Cons have "fold (line_row_st h) body
      ([md_line (heap s h), md_line (replicate (length (heap s h)) (ustr_of ''---''))], s)
      = (ls, s')"
    by (simp add: table_lines_st_def)
  from line_rows_st [OF hb db this] Cons show ?thesis
    by (simp add: table_lines_Cons o_def)
qed

lemma process_regular_table_st:
  assumes "process_regular_table_st table s = (ls, s')"
  shows "ls = process_regular_table table" and "only_fresh s s'"
proof -
  obtain td s1 where e: "extract_table_data_st table s = (td, s1)"
    by (cases "extract_table_data_st table s")
  note E = extract_table_data_st [OF e]
  show "ls = process_regular_table table" and "only_fresh s s'"
  proof (atomize (full), cases "td = []")
    case True
    with assms e E show "ls = process_regular_table table \<and> only_fresh s s'"
      by (simp add: process_regular_table_st_def process_regular_table_eq)
  next
    case False
    with assms e have t: "table_lines_st td s1 = (ls, s')"
      by (simp add: process_regular_table_st_def)
    have "only_fresh s s'"
      unfolding only_fresh_def
    proof (intro conjI allI impI)
      from table_lines_st [OF E(3) t] E(1)
      show "doc_table s' = doc_table s" "env s' = env s" "next_ref s \<le> next_ref s'"
        by (auto simp: only_fresh_def)
      fix r assume r: "r < next_ref s"
      with E(4) have "r \<notin> set td" by auto
      with table_lines_st [OF E(3) t] have "heap s' r = heap s1 r" by simp
      also from E(1) r have "\<dots> = heap s r" by (simp add: only_fresh_def)
      finally show "heap s' r = heap s r" .
    qed
    moreover from table_lines_st [OF E(3) t] E(2) have "ls = process_regular_table table"
      by (simp add: process_regular_table_eq)
    ultimately show "ls = process_regular_table table \<and> only_fresh s s'" by simp
  qed
qed

lemma process_nested_table_content_tables:
  "process_nested_table_content t =
     join_blank (map table_lines
       (filter (\<lambda>td. td \<noteq> []) (map extract_table_data (nested_tables t))))"
  apply (simp only: process_nested_table_content_def)
  apply (simp only: collect_tables)
  apply (simp only: render_all)
  apply (simp only: Let_def)
  done

lemma fold_concat_lists: "fold f (concat xss) x = fold (fold f) xss x"
  by (induction xss arbitrary: x) simp_all

lemma collect_nested_st:
  "fold (\<lambda>row. fold (\<lambda>cell. fold collect_table_st (tables cell)) row) (rows table) x =
     fold collect_table_st (nested_tables table) x"
proof -
  have cells: "fold collect_table_st (concat (map tables row)) y =
      fold (\<lambda>cell. fold collect_table_st (tables cell)) row y" for row y
    by (induction row arbitrary: y) simp_all
  have "fold collect_table_st (concat (map (\<lambda>row. concat (map tables row)) rws)) y =
      fold (\<lambda>row. fold (\<lambda>cell. fold collect_table_st (tables cell)) row) rws y" for rws y
    by (induction rws arbitrary: y) (simp_all add: cells)
  then show ?thesis by (simp add: nested_tables_def)
qed

lemma collect_tables_st:
  assumes "fold collect_table_st nts (tds, s) = (tds', s')"
  shows "only_fresh s s'
    \<and> (\<exists>new. tds' = tds @ new
          \<and> map (map (heap s')) new =
              filter (\<lambda>td. td \<noteq> []) (map extract_table_data nts)
          \<and> distinct (concat new)
          \<and> (\<forall>r\<in>set (concat new). next_ref s \<le> r \<and> r < next_ref s'))"
  using assms
proof (induction nts arbitrary: tds s)
  case Nil
  then show ?case by simp
next
  case (Cons nt nts)
  obtain td s1 where e: "extract_table_data_st nt s = (td, s1)"
    by (cases "extract_table_data_st nt s")
  note E = extract_table_data_st [OF e]
  let ?tds1 = "if td \<noteq> [] then tds @ [td] else tds"
  have "collect_table_st nt (tds, s) = (?tds1, s1)"
    using e by (simp add: collect_table_st_def)
  moreover have "fold collect_table_st (nt # nts) (tds, s) =
      fold collect_table_st nts (collect_table_st nt (tds, s))"
    by simp
  ultimately have "fold collect_table_st nts (?tds1, s1) = (tds', s')"
    using Cons.prems by simp
  from Cons.IH [OF this] obtain new where f: "only_fresh s1 s'" and t: "tds' = ?tds1 @ new"
    and m: "map (map (heap s')) new = filter (\<lambda>td. td \<noteq> []) (map extract_table_data nts)"
    and d: "distinct (concat new)"
    and r: "\<forall>r\<in>set (concat new). next_ref s1 \<le> r \<and> r < next_ref s'"
    by auto
  from E(1) f have 1: "only_fresh s s'" by (rule only_fresh_trans)
  from E(1) have le: "next_ref s \<le> next_ref s1" by (simp add: only_fresh_def)
  from f have le': "next_ref s1 \<le> next_ref s'" by (simp add: only_fresh_def)
  have "map (heap s') td = map (heap s1) td"
    using E(4) f by (auto simp: only_fresh_def)
  with E(2) have v: "map (heap s') td = extract_table_data nt" by simp
  then have ne: "td = [] \<longleftrightarrow> extract_table_data nt = []" by auto
  show ?case
  proof (cases "td = []")
    case True
    with t have "tds' = tds @ new" by simp
    moreover from True ne m have "map (map (heap s')) new =
        filter (\<lambda>td. td \<noteq> []) (map extract_table_data (nt # nts))" by simp
    moreover have "\<forall>r\<in>set (concat new). next_ref s \<le> r \<and> r < next_ref s'"
    proof
      fix q assume "q \<in> set (concat new)"
      with r have "next_ref s1 \<le> q \<and> q < next_ref s'" by blast
      with le show "next_ref s \<le> q \<and> q < next_ref s'" by simp
    qed
    ultimately show ?thesis using 1 d by blast
  next
    case False
    with t have "tds' = tds @ (td # new)" by simp
    moreover from False ne m v have "map (map (heap s')) (td # new) =
        filter (\<lambda>td. td \<noteq> []) (map extract_table_data (nt # nts))" by simp
    moreover have "distinct (concat (td # new))"
    proof -
      have "set td \<inter> set (concat new) = {}"
      proof (rule ccontr)
        assume "set td \<inter> set (concat new) \<noteq> {}"
        then obtain q where 1: "q \<in> set td" and 2: "q \<in> set (concat new)" by blast
        from 1 E(4) have "q < next_ref s1" by blast
        moreover from 2 r have "next_ref s1 \<le> q" by blast
        ultimately show False by simp
      qed
      with E(3) d show ?thesis by simp
    qed
    moreover have "\<forall>r\<in>set (concat (td # new)). next_ref s \<le> r \<and> r < next_ref s'"
    proof
      fix q assume "q \<in> set (concat (td # new))"
      then consider "q \<in> set td" | "q \<in> set (concat new)" by auto
      then show "next_ref s \<le> q \<and> q < next_ref s'"
      proof cases
        case 1
        with E(4) have "next_ref s \<le> q \<and> q < next_ref s1" by blast
        with le' show ?thesis by simp
      next
        case 2
        with r have "next_ref s1 \<le> q \<and> q < next_ref s'" by blast
        with le show ?thesis by simp
      qed
    qed
    ultimately show ?thesis using 1 by blast
  qed
qed

lemma emit_table_st_eq:
  assumes "distinct td"
  shows "\<exists>s'. emit_table_st (k, td) (ls, s) =
      ((if 0 < k then ls @ [[]] else ls) @ table_lines (map (heap s) td), s')
    \<and> doc_table s' = doc_table s \<and> env s' = env s \<and> next_ref s' = next_ref s
    \<and> (\<forall>r. r \<notin> set td \<longrightarrow> heap s' r = heap s r)"
proof (cases "td = []")
  case True
  then show ?thesis by (simp add: emit_table_st_def)
next
  case False
  obtain ls2 s2 where t: "table_lines_st td s = (ls2, s2)"
    by (cases "table_lines_st td s")
  from table_lines_st [OF assms t] False t show ?thesis
    by (simp add: emit_table_st_def)
qed

lemma emit_tables_from:
  assumes "distinct (concat tds)" and "0 < k"
    and "fold emit_table_st (enumerate k tds) (ls, s) = (ls', s')"
  shows "ls' = ls @ concat (map (\<lambda>td. [] # table_lines (map (heap s) td)) tds)
    \<and> doc_table s' = doc_table s \<and> env s' = env s \<and> next_ref s' = next_ref s
    \<and> (\<forall>r. r \<notin> set (concat tds) \<longrightarrow> heap s' r = heap s r)"
  using assms
proof (induction tds arbitrary: k ls s)
  case Nil
  then show ?case by simp
next
  case (Cons td tds)
  from Cons.prems(1) have dt: "distinct td" and dr: "distinct (concat tds)"
    and dj: "set td \<inter> set (concat tds) = {}" by auto
  from emit_table_st_eq [OF dt, of k ls s] Cons.prems(2) obtain s1 where
    e: "emit_table_st (k, td) (ls, s) = ((ls @ [[]]) @ table_lines (map (heap s) td), s1)"
    and f: "doc_table s1 = doc_table s" "env s1 = env s" "next_ref s1 = next_ref s"
    and h: "\<forall>r. r \<notin> set td \<longrightarrow> heap s1 r = heap s r"
    by auto
  from Cons.prems(3) e have "fold emit_table_st (enumerate (Suc k) tds)
      ((ls @ [[]]) @ table_lines (map (heap s) td), s1) = (ls', s')"
    by simp
  from Cons.IH [OF dr _ this]
  have 1: "ls' = ((ls @ [[]]) @ table_lines (map (heap s) td)) @
      concat (map (\<lambda>td. [] # table_lines (map (heap s1) td)) tds)"
    and 2: "doc_table s' = doc_table s1" "env s' = env s1" "next_ref s' = next_ref s1"
    and 3: "\<forall>r. r \<notin> set (concat tds) \<longrightarrow> heap s' r = heap s1 r"
    by auto
  have "table_lines (map (heap s1) td') = table_lines (map (heap s) td')"
    if "td' \<in> set tds" for td'
  proof -
    from that dj have "set td' \<inter> set td = {}" by auto
    with h have "map (heap s1) td' = map (heap s) td'" by auto
    then show ?thesis by (rule arg_cong)
  qed
  then have "map (\<lambda>td. [] # table_lines (map (heap s1) td)) tds =
      map (\<lambda>td. [] # table_lines (map (heap s) td)) tds"
    by auto
  with 1 have "ls' = ls @ concat (map (\<lambda>td. [] # table_lines (map (heap s) td)) (td # tds))"
    by simp
  moreover from 3 h have "\<forall>r. r \<notin> set (concat (td # tds)) \<longrightarrow> heap s' r = heap s r"
    by auto
  ultimately show ?case using 2 f by simp
qed

lemma emit_tables_all:
  assumes "distinct (concat tds)"
    and "fold emit_table_st (enumerate 0 tds) ([], s) = (ls', s')"
  shows "ls' = join_blank (map (\<lambda>td. table_lines (map (heap s) td)) tds)
    \<and> doc_table s' = doc_table s \<and> env s' = env s \<and> next_ref s' = next_ref s
    \<and> (\<forall>r. r \<notin> set (concat tds) \<longrightarrow> heap s' r = heap s r)"
proof (cases tds)
  case Nil
  with assms(2) show ?thesis by simp
next
  case (Cons td rest)
  from assms(1) Cons have dt: "distinct td" and dr: "distinct (concat rest)"
    and dj: "set td \<inter> set (concat rest) = {}" by auto
  from emit_table_st_eq [OF dt, of 0 "[]" s] obtain s1 where
    e: "emit_table_st (0, td) ([], s) = (table_lines (map (heap s) td), s1)"
    and f: "doc_table s1 = doc_table s" "env s1 = env s" "next_ref s1 = next_ref s"
    and h: "\<forall>r. r \<notin> set td \<longrightarrow> heap s1 r = heap s r"
    by auto
  from assms(2) Cons e have "fold emit_table_st (enumerate (Suc 0) rest)
      (table_lines (map (heap s) td), s1) = (ls', s')"
    by simp
  from emit_tables_from [OF dr _ this]
  have 1: "ls' = table_lines (map (heap s) td) @
      concat (map (\<lambda>td. [] # table_lines (map (heap s1) td)) rest)"
    and 2: "doc_table s' = doc_table s1" "env s' = env s1" "next_ref s' = next_ref s1"
    and 3: "\<forall>r. r \<notin> set (concat rest) \<longrightarrow> heap s' r = heap s1 r"
    by auto
  have "table_lines (map (heap s1) td') = table_lines (map (heap s) td')"
    if "td' \<in> set rest" for td'
  proof -
    from that dj have "set td' \<inter> set td = {}" by auto
    with h have "map (heap s1) td' = map (heap s) td'" by auto
    then show ?thesis by (rule arg_cong)
  qed
  then have "map (\<lambda>td. [] # table_lines (map (heap s1) td)) rest =
      map (\<lambda>td. [] # table_lines (map (heap s) td)) rest"
    by auto
  with 1 have "ls' = join_blank (map (\<lambda>td. table_lines (map (heap s) td)) (td # rest))"
    by (simp add: join_blank_Cons o_def)
  moreover from 3 h have "\<forall>r. r \<notin> set (concat (td # rest)) \<longrightarrow> heap s' r = heap s r"
    by auto
  ultimately show ?thesis using 2 f Cons by simp
qed

lemma process_nested_table_content_st:
  assumes "process_nested_table_content_st table s = (ls, s')"
  shows "ls = process_nested_table_content table" and "only_fresh s s'"
proof -
  obtain tds s1 where c: "fold collect_table_st (nested_tables table) ([], s) = (tds, s1)"
    by (cases "fold collect_table_st (nested_tables table) ([], s)")
  from collect_tables_st [OF c] have f: "only_fresh s s1"
    and m: "map (map (heap s1)) tds =
        filter (\<lambda>td. td \<noteq> []) (map extract_table_data (nested_tables table))"
    and d: "distinct (concat tds)"
    and r: "\<forall>r\<in>set (concat tds). next_ref s \<le> r \<and> r < next_ref s1"
    by auto
  from assms c have e: "fold emit_table_st (enumerate 0 tds) ([], s1) = (ls, s')"
    by (simp add: process_nested_table_content_st_def collect_nested_st)
  note E = emit_tables_all [OF d e]
  have "map (\<lambda>td. table_lines (map (heap s1) td)) tds = map table_lines (map (map (heap s1)) tds)"
    by simp
  with E m show "ls = process_nested_table_content table"
    by (simp only: process_nested_table_content_tables)
  show "only_fresh s s'"
    unfolding only_fresh_def
  proof (intro conjI allI impI)
    from E f show "doc_table s' = doc_table s" "env s' = env s" "next_ref s \<le> next_ref s'"
      by (auto simp: only_fresh_def)
    fix q assume q: "q < next_ref s"
    have "q \<notin> set (concat tds)"
    proof
      assume "q \<in> set (concat tds)"
      with r have "next_ref s \<le> q" by blast
      with q show False by simp
    qed
    with E have "heap s' q = heap s1 q" by simp
    also from f q have "\<dots> = heap s q" by (simp add: only_fresh_def)
    finally show "heap s' q = heap s q" .
  qed
qed

lemma process_table_proper_format_st:
  "fst (process_table_proper_format_st s) = process_table_proper_format (doc_table s)
   \<and> only_fresh s (snd (process_table_proper_format_st s))"
proof -
  obtain ls s' where p: "process_table_proper_format_st s = (ls, s')"
    by (cases "process_table_proper_format_st s")
  have "ls = process_table_proper_format (doc_table s) \<and> only_fresh s s'"
  proof (cases "rows (doc_table s) = []")
    case True
    with p show ?thesis
      by (auto simp: process_table_proper_format_st_def process_table_proper_format_def)
  next
    case False
    show ?thesis
    proof (cases "has_nested_tables (doc_table s)")
      case True
      with False p have "process_nested_table_content_st (doc_table s) s = (ls, s')"
        by (simp add: process_table_proper_format_st_def)
      from process_nested_table_content_st [OF this] True False show ?thesis
        by (simp add: process_table_proper_format_def)
    next
      case nn: False
      with False p have "process_regular_table_st (doc_table s) s = (ls, s')"
        by (simp add: process_table_proper_format_st_def)
      from process_regular_table_st [OF this] nn False show ?thesis
        by (simp add: process_table_proper_format_def)
    qed
  qed
  with p show ?thesis by simp
qed

lemma demo_cells:
  "cell_text (Cell [ustr_of ''A''] []) = ustr_of ''A''"
  "cell_text (Cell [ustr_of ''B''] []) = ustr_of ''B''"
  "cell_text (Cell [ustr_of ''x''] []) = ustr_of ''x''"
  by (simp_all add: run_new)

lemma demo_run:
  "heap (snd (process_table_proper_format_st demo_state)) 2 = [ustr_of ''x'', dash]"
proof -
  define s1 where "s1 = demo_state\<lparr>heap := ((heap demo_state)
      (Suc 0 := [ustr_of ''A'', ustr_of ''B'']))(Suc (Suc 0) := [ustr_of ''x'']),
      next_ref := Suc (Suc (Suc 0))\<rparr>"
  have t: "rows (doc_table demo_state) \<noteq> []" "\<not> has_nested_tables (doc_table demo_state)"
    by (simp_all add: demo_state_def has_nested_tables_def)
  have e: "extract_table_data_st (doc_table demo_state) demo_state = ([Suc 0, Suc (Suc 0)], s1)"
    using demo_cells
    by (simp add: extract_table_data_st_def extract_row_st_eq demo_state_def ustr_of_def dash_def
        s1_def)
  have "process_table_proper_format_st demo_state =
      process_regular_table_st (doc_table demo_state) demo_state"
    using t by (simp add: process_table_proper_format_st_def Let_def)
  also have "\<dots> = table_lines_st [Suc 0, Suc (Suc 0)] s1"
    by (simp add: process_regular_table_st_def e)
  finally have "heap (snd (process_table_proper_format_st demo_state)) (Suc (Suc 0)) =
      pad_row (length (heap s1 (Suc 0))) (heap s1 (Suc (Suc 0)))"
    by (simp add: table_lines_st_def line_row_st_eq)
  also have "\<dots> = [ustr_of ''x'', dash]"
    by (simp add: s1_def pad_row_eq)
  finally show ?thesis by (simp add: numeral_2_eq_2)
qed

section \<open>Claims about cell normalization\<close>

text \<open>
  Claim C5 (idempotent normalization). For every cell text \<open>t\<close>, normalizing twice gives
  what normalizing once gives: \<^verbatim>\<open>clean_cell_text(clean_cell_text(t)) = clean_cell_text(t)\<close>,
  where \<^verbatim>\<open>clean_cell_text\<close> is the pipe escaping, the replacement of newline, carriage
  return and tab, the collapsing and trimming of whitespace, the tightening of percent
  signs and the substitution of \<^verbatim>\<open>Total\<close>. With the placeholder for an empty text
  it is the same: a cell whose one paragraph is the text of a cell has that text.
\<close>

theorem clean_cell_text_idempotent:
  "clean_cell_text (clean_cell_text t) = clean_cell_text t
   \<and> cell_text (Cell [cell_text c] []) = cell_text c"
  using clean_cell_text_fixed [of t] cell_text_again [of c] by (rule conjI)

text \<open>Claim C5 on a text with a pipe, a run of spaces and a loose percent sign\<close>

theorem clean_cell_text_idempotent_witness:
  "clean_cell_text (clean_cell_text (ustr_of ''Net |  45 %  of sales ''))
     = ustr_of ''Net &#124; 45% of sales''
   \<and> cell_text (Cell [cell_text (Cell [ustr_of '' ''] [])] []) = dash"
proof -
  have "clean_cell_text (ustr_of ''Net |  45 %  of sales '') = ustr_of ''Net &#124; 45% of sales''"
    by (simp add: run_new)
  moreover have "cell_text (Cell [ustr_of '' ''] []) = dash"
    by (simp add: run_new)
  ultimately show ?thesis
    using clean_cell_text_idempotent [of "ustr_of ''Net |  45 %  of sales ''" "Cell [ustr_of '' ''] []"]
    by simp
qed

text \<open>
  Claim C3 (total collapse). When the normalized text of a cell contains \<^verbatim>\<open>total\<close>
  anywhere, in any case, \<^verbatim>\<open>clean_cell_text\<close> returns exactly \<^verbatim>\<open>Total\<close>; the
  normalized text contains it whenever the cell text itself does, so a cell text that
  mentions it anywhere gives \<^verbatim>\<open>Total\<close>, as \<^verbatim>\<open>Grand Total: 1,204\<close> does.
\<close>

theorem total_collapse:
  "(py_in (ustr_of ''total'') (py_lower (before_total t)) \<longrightarrow>
      clean_cell_text t = ustr_of ''Total'')
   \<and> (py_in (ustr_of ''total'') (py_lower t) \<longrightarrow> clean_cell_text t = ustr_of ''Total'')
   \<and> clean_cell_text (ustr_of ''Grand Total: 1,204'') = ustr_of ''Total''"
proof (intro conjI impI)
  assume h: "py_in (ustr_of ''total'') (py_lower (before_total t))"
  have "t \<noteq> []"
  proof
    assume "t = []"
    with h show False by (simp add: py_lower_def ustr_of_def)
  qed
  with h show "clean_cell_text t = ustr_of ''Total''"
    by (simp add: clean_cell_text_eq)
next
  assume r: "py_in (ustr_of ''total'') (py_lower t)"
  then have h: "py_in (ustr_of ''total'') (py_lower (before_total t))"
    by (rule mentions_total_kept)
  have "t \<noteq> []"
  proof
    assume "t = []"
    with r show False by (simp add: py_lower_def ustr_of_def)
  qed
  with h show "clean_cell_text t = ustr_of ''Total''"
    by (simp add: clean_cell_text_eq)
next
  show "clean_cell_text (ustr_of ''Grand Total: 1,204'') = ustr_of ''Total''"
    by (simp add: run_new)
qed

text \<open>Claim C3 on \<^verbatim>\<open>SUBTOTAL 12 %\<close>, whose normalized text is \<^verbatim>\<open>SUBTOTAL 12%\<close>\<close>

theorem total_collapse_witness:
  "before_total (ustr_of ''SUBTOTAL 12 %'') = ustr_of ''SUBTOTAL 12%''
   \<and> py_in (ustr_of ''total'') (py_lower (before_total (ustr_of ''SUBTOTAL 12 %'')))
   \<and> py_in (ustr_of ''total'') (py_lower (ustr_of ''SUBTOTAL 12 %''))
   \<and> clean_cell_text (ustr_of ''SUBTOTAL 12 %'') = ustr_of ''Total''"
proof -
  have b: "before_total (ustr_of ''SUBTOTAL 12 %'') = ustr_of ''SUBTOTAL 12%''"
    by (simp add: before_total_def run_new)
  have h: "py_in (ustr_of ''total'') (py_lower (before_total (ustr_of ''SUBTOTAL 12 %'')))"
    unfolding b by (simp add: py_lower_def ustr_of_def)
  have r: "py_in (ustr_of ''total'') (py_lower (ustr_of ''SUBTOTAL 12 %''))"
    by (simp add: py_lower_def ustr_of_def)
  from total_collapse [of "ustr_of ''SUBTOTAL 12 %''"] h
  have "clean_cell_text (ustr_of ''SUBTOTAL 12 %'') = ustr_of ''Total''" by blast
  with b h r show ?thesis by blast
qed

section \<open>Claims about the flatteners\<close>

text \<open>
  Claim C9 (zero rows). For a table with zero rows the flattener returns no line, and
  this is no error: the word-document flattener returns the empty list and its caller
  leaves the page as it is, the presentation flattener returns \<^verbatim>\<open>None\<close> with nothing
  printed, nothing written and nothing recorded.
\<close>

theorem zero_rows:
  "(rows t = [] \<longrightarrow>
      process_table_proper_format t = []
      \<and> word_to_markdown_pages_tbl current_lines t = current_lines)
   \<and> process_table self w [] slide_num shape_idx = (None, self, w)"
  by (simp add: process_table_proper_format_def word_to_markdown_pages_tbl_def
      process_table_result)

text \<open>Claim C9 on the table without rows\<close>

theorem zero_rows_witness:
  "rows (Table []) = [] \<and> process_table_proper_format (Table []) = []
   \<and> word_to_markdown_pages_tbl [ustr_of ''# Title'', []] (Table []) = [ustr_of ''# Title'', []]
   \<and> process_table demo_converter demo_world [] 3 (PyInt 0) = (None, demo_converter, demo_world)"
  using zero_rows [of "Table []" "[ustr_of ''# Title'', []]" demo_converter demo_world 3 "PyInt 0"]
  by simp

text \<open>
  Claim C6 (ragged-row repair). The line of a body row holds the row's cells padded on
  the right with the en-dash to the header's width when the row is shorter, and the
  row's first cells up to the header's width otherwise. Header \<^verbatim>\<open>A B C\<close> with row
  \<^verbatim>\<open>x y\<close> gives the line \<^verbatim>\<open>| x | y | - |\<close> (with the en-dash for \<^verbatim>\<open>-\<close>), header
  \<^verbatim>\<open>A B\<close> with row \<^verbatim>\<open>x y z\<close> the line
  \<^verbatim>\<open>| x | y |\<close>, in a table of its own and as a nested table.
\<close>

theorem ragged_row_repair:
  "table_lines (header_row # body) =
     md_line header_row # md_line (replicate (length header_row) (ustr_of ''---''))
       # map (\<lambda>row. md_line
                  (if length row < length header_row
                   then row @ replicate (length header_row - length row) dash
                   else take (length header_row) row)) body
   \<and> process_regular_table t = table_lines (extract_table_data t)
   \<and> process_table_proper_format
        (Table [[Cell [ustr_of ''A''] [], Cell [ustr_of ''B''] [], Cell [ustr_of ''C''] []],
                [Cell [ustr_of ''x''] [], Cell [ustr_of ''y''] []]])
       = [ustr_of ''| A | B | C |'', ustr_of ''| --- | --- | --- |'',
          ustr_of ''| x | y | '' @ dash @ ustr_of '' |'']
   \<and> process_table_proper_format
        (Table [[Cell [ustr_of ''A''] [], Cell [ustr_of ''B''] []],
                [Cell [ustr_of ''x''] [], Cell [ustr_of ''y''] [], Cell [ustr_of ''z''] []]])
       = [ustr_of ''| A | B |'', ustr_of ''| --- | --- |'', ustr_of ''| x | y |'']
   \<and> process_table_proper_format
        (Table [[Cell [] [Table [[Cell [ustr_of ''A''] [], Cell [ustr_of ''B''] [], Cell [ustr_of ''C''] []],
                                 [Cell [ustr_of ''x''] [], Cell [ustr_of ''y''] []]],
                          Table [[Cell [ustr_of ''A''] [], Cell [ustr_of ''B''] []],
                                 [Cell [ustr_of ''x''] [], Cell [ustr_of ''y''] [], Cell [ustr_of ''z''] []]]]]])
       = [ustr_of ''| A | B | C |'', ustr_of ''| --- | --- | --- |'',
          ustr_of ''| x | y | '' @ dash @ ustr_of '' |'', [],
          ustr_of ''| A | B |'', ustr_of ''| --- | --- |'', ustr_of ''| x | y |'']"
proof (intro conjI)
  show "table_lines (header_row # body) =
     md_line header_row # md_line (replicate (length header_row) (ustr_of ''---''))
       # map (\<lambda>row. md_line
                  (if length row < length header_row
                   then row @ replicate (length header_row - length row) dash
                   else take (length header_row) row)) body"
    by (simp only: table_lines_Cons repaired_row)
  show "process_regular_table t = table_lines (extract_table_data t)"
    by (rule process_regular_table_eq)
qed (simp_all add: run_new)

text \<open>Claim C6 on a header of three cells with a row of one and a row of four\<close>

theorem ragged_row_repair_witness:
  "table_lines [[ustr_of ''A'', ustr_of ''B'', ustr_of ''C''], [ustr_of ''x''],
                [ustr_of ''p'', ustr_of ''q'', ustr_of ''r'', ustr_of ''s'']]
   = [md_line [ustr_of ''A'', ustr_of ''B'', ustr_of ''C''],
      md_line [ustr_of ''---'', ustr_of ''---'', ustr_of ''---''],
      md_line [ustr_of ''x'', dash, dash],
      md_line [ustr_of ''p'', ustr_of ''q'', ustr_of ''r'']]"
  using ragged_row_repair [of "[ustr_of ''A'', ustr_of ''B'', ustr_of ''C'']"
      "[[ustr_of ''x''], [ustr_of ''p'', ustr_of ''q'', ustr_of ''r'', ustr_of ''s'']]" "Table []"]
  by (simp add: numeral_3_eq_3)

text \<open>
  Claim C8 (all-placeholder rows dropped). The rows that survive are, in their order,
  the rows with at least one cell whose normalized text is not the placeholder; a row
  whose cells are all empty or whitespace has the placeholder in every cell and is left
  out, wherever it stands, before the first surviving row becomes the header.
\<close>

theorem blank_rows_dropped:
  "extract_table_data t = filter (list_ex (\<lambda>c. c \<noteq> dash)) (map (map cell_text) (rows t))
   \<and> (list_all blank_cell row \<longrightarrow>
        map cell_text row = replicate (length row) dash
        \<and> extract_table_data (Table (pre @ row # post)) = extract_table_data (Table (pre @ post)))
   \<and> process_regular_table t = table_lines (extract_table_data t)"
proof (intro conjI impI)
  show "extract_table_data t = filter (list_ex (\<lambda>c. c \<noteq> dash)) (map (map cell_text) (rows t))"
    by (rule extract_table_data_eq)
  show "process_regular_table t = table_lines (extract_table_data t)"
    by (rule process_regular_table_eq)
next
  assume "list_all blank_cell row"
  then have c: "\<forall>c\<in>set row. cell_text c = dash"
    by (simp add: list_all_iff blank_cell_text)
  then show "map cell_text row = replicate (length row) dash"
    by (simp add: map_replicate_const [symmetric])
  from c have "\<not> list_ex (\<lambda>c. c \<noteq> dash) (map cell_text row)"
    by (simp add: list_ex_iff)
  then show "extract_table_data (Table (pre @ row # post)) = extract_table_data (Table (pre @ post))"
    by (rule extract_table_data_drop_row)
qed

text \<open>Claim C8 on a table whose first row holds an empty cell and a cell of spaces\<close>

theorem blank_rows_dropped_witness:
  "list_all blank_cell [Cell [] [], Cell [ustr_of ''  ''] []]
   \<and> extract_table_data (Table [[Cell [] [], Cell [ustr_of ''  ''] []],
                                [Cell [ustr_of ''A''] [], Cell [] []]])
       = [[ustr_of ''A'', dash]]"
proof -
  have b: "list_all blank_cell [Cell [] [], Cell [ustr_of ''  ''] []]"
    by (simp add: blank_cell_def ustr_of_def is_space_def)
  from blank_rows_dropped [of "Table [[Cell [ustr_of ''A''] [], Cell [] []]]"
      "[Cell [] [], Cell [ustr_of ''  ''] []]" "[]" "[[Cell [ustr_of ''A''] [], Cell [] []]]"] b
  have "extract_table_data (Table [[Cell [] [], Cell [ustr_of ''  ''] []],
                                [Cell [ustr_of ''A''] [], Cell [] []]])
      = filter (list_ex (\<lambda>c. c \<noteq> dash)) (map (map cell_text) [[Cell [ustr_of ''A''] [], Cell [] []]])"
    by simp
  also have "\<dots> = [[ustr_of ''A'', dash]]"
    by (simp add: run_new)
  finally show ?thesis using b by blast
qed

text \<open>
  Claim C10 (literal placeholder). The test that keeps a row compares the normalized
  cell texts with the en-dash, so a row is dropped as soon as every cell's text is the
  en-dash, also when the document holds a real en-dash there: a cell whose paragraph is
  one en-dash and a cell without text have the same text, and a row of en-dashes in front of
  the header row is dropped like an empty one.
\<close>

theorem dash_rows_dropped:
  "(list_all (\<lambda>c. cell_text c = dash) row \<longrightarrow>
      extract_table_data (Table (pre @ row # post)) = extract_table_data (Table (pre @ post)))
   \<and> cell_text (Cell [dash] []) = dash
   \<and> cell_text (Cell [dash] []) = cell_text (Cell [] [])
   \<and> process_table_proper_format
        (Table [[Cell [dash] [], Cell [dash] []],
                [Cell [ustr_of ''A''] [], Cell [ustr_of ''B''] []]])
       = [ustr_of ''| A | B |'', ustr_of ''| --- | --- |'']"
proof (intro conjI impI)
  assume "list_all (\<lambda>c. cell_text c = dash) row"
  then have "\<not> list_ex (\<lambda>c. c \<noteq> dash) (map cell_text row)"
    by (simp add: list_ex_iff list_all_iff)
  then show "extract_table_data (Table (pre @ row # post)) = extract_table_data (Table (pre @ post))"
    by (rule extract_table_data_drop_row)
qed (simp_all add: run_new)

text \<open>Claim C10 on a row of two real en-dashes between two rows of text\<close>

theorem dash_rows_dropped_witness:
  "list_all (\<lambda>c. cell_text c = dash) [Cell [dash] [], Cell [ustr_of '' '', dash] []]
   \<and> extract_table_data
        (Table [[Cell [ustr_of ''A''] []], [Cell [dash] [], Cell [ustr_of '' '', dash] []],
                [Cell [ustr_of ''x''] []]])
       = extract_table_data (Table [[Cell [ustr_of ''A''] []], [Cell [ustr_of ''x''] []]])"
proof -
  have d: "list_all (\<lambda>c. cell_text c = dash) [Cell [dash] [], Cell [ustr_of '' '', dash] []]"
    by (simp add: run_new)
  from dash_rows_dropped [of "[Cell [dash] [], Cell [ustr_of '' '', dash] []]"
      "[[Cell [ustr_of ''A''] []]]" "[[Cell [ustr_of ''x''] []]]"] d
  show ?thesis by simp
qed

text \<open>
  Claim C4 (nested tables first). When a cell of the table holds a nested table, the
  flattener's lines are the table texts of the nested tables, each made from the nested
  table alone by the procedure for a table without nesting, in the order of the cells,
  with one empty line between neighbours (a nested table without a line to emit adds
  nothing); the paragraphs of the table's own cells have no influence on the lines. For
  one cell with paragraphs and one nested table the lines are the nested table's.
\<close>

theorem nested_precedence:
  "(has_nested_tables t \<longrightarrow>
      process_table_proper_format t =
        join_blank (filter (\<lambda>b. b \<noteq> []) (map process_regular_table (nested_tables t)))
      \<and> process_table_proper_format (map_paragraphs f t) = process_table_proper_format t)
   \<and> process_table_proper_format (Table [[Cell ps [nested]]]) = process_regular_table nested"
proof (intro conjI impI)
  assume n: "has_nested_tables t"
  then show 1: "process_table_proper_format t =
        join_blank (filter (\<lambda>b. b \<noteq> []) (map process_regular_table (nested_tables t)))"
    by (simp add: process_table_proper_format_blocks table_blocks_def)
  from n show "process_table_proper_format (map_paragraphs f t) = process_table_proper_format t"
    by (simp add: process_table_proper_format_blocks table_blocks_def)
next
  have "has_nested_tables (Table [[Cell ps [nested]]])"
    by (simp add: has_nested_tables_def)
  then show "process_table_proper_format (Table [[Cell ps [nested]]]) = process_regular_table nested"
    by (simp add: process_table_proper_format_blocks table_blocks_def nested_tables_def)
qed

text \<open>
  Claim C4 on a table of one row: a cell with a paragraph and two nested tables, and a
  cell with a paragraph only
\<close>

theorem nested_precedence_witness:
  "has_nested_tables
     (Table [[Cell [ustr_of ''outer text'']
                [Table [[Cell [ustr_of ''A''] []], [Cell [ustr_of ''x''] []]],
                 Table [[Cell [ustr_of ''B''] []]]],
              Cell [ustr_of ''more''] []]])
   \<and> process_table_proper_format
     (Table [[Cell [ustr_of ''outer text'']
                [Table [[Cell [ustr_of ''A''] []], [Cell [ustr_of ''x''] []]],
                 Table [[Cell [ustr_of ''B''] []]]],
              Cell [ustr_of ''more''] []]])
     = [ustr_of ''| A |'', ustr_of ''| --- |'', ustr_of ''| x |'', [],
        ustr_of ''| B |'', ustr_of ''| --- |'']"
proof -
  let ?t = "Table [[Cell [ustr_of ''outer text'']
                [Table [[Cell [ustr_of ''A''] []], [Cell [ustr_of ''x''] []]],
                 Table [[Cell [ustr_of ''B''] []]]],
              Cell [ustr_of ''more''] []]]"
  have n: "has_nested_tables ?t" by (simp add: has_nested_tables_def)
  with nested_precedence [of ?t id "[]" "Table []"]
  have "process_table_proper_format ?t =
      join_blank (filter (\<lambda>b. b \<noteq> []) (map process_regular_table (nested_tables ?t)))"
    by blast
  also have "\<dots> = [ustr_of ''| A |'', ustr_of ''| --- |'', ustr_of ''| x |'', [],
        ustr_of ''| B |'', ustr_of ''| --- |'']"
    by (simp add: nested_tables_def run_new)
  finally show ?thesis using n by blast
qed




text \<open>
  Claim C2 (blank line), as the code has it. The word-document flattener appends no
  empty line: the last of its lines is never empty. Its caller
  \<^verbatim>\<open>word_to_markdown_pages\<close> appends the one empty line, after the lines of a table that
  has lines, and appends nothing for a table without lines. The presentation flattener
  appends the empty line itself: for a table with rows whose data file can be written
  it returns the table lines, of which there is one at least and none is empty, then
  one empty line, then a link line that is not empty; otherwise it returns nothing.
\<close>

theorem blank_line_contract:
  "(process_table_proper_format t \<noteq> [] \<longrightarrow>
      last (process_table_proper_format t) \<noteq> []
      \<and> word_to_markdown_pages_tbl current_lines t =
          current_lines @ process_table_proper_format t @ [[]])
   \<and> (process_table_proper_format t = [] \<longrightarrow>
        word_to_markdown_pages_tbl current_lines t = current_lines)
   \<and> fst (process_table self w table slide_num shape_idx) =
       (if table = [] \<or> open_error w (data_file self slide_num shape_idx) \<noteq> None
           \<or> dump_error w (data_file self slide_num shape_idx) \<noteq> None
        then None
        else Some (ustr_of ''table'',
          slide_table_lines (map (map slide_cell_text) table) @
            [[], view_data_line
                   (relpath w (data_file self slide_num shape_idx) (output_dir self))]))
   \<and> (table \<noteq> [] \<longrightarrow> slide_table_lines (map (map slide_cell_text) table) \<noteq> [])
   \<and> [] \<notin> set (slide_table_lines (map (map slide_cell_text) table))
   \<and> view_data_line rel \<noteq> []"
proof (intro conjI impI)
  assume n: "process_table_proper_format t \<noteq> []"
  then show "last (process_table_proper_format t) \<noteq> []"
    by (rule last_process_table_proper_format)
  from n show "word_to_markdown_pages_tbl current_lines t =
      current_lines @ process_table_proper_format t @ [[]]"
    by (simp add: word_to_markdown_pages_tbl_def Let_def)
next
  assume "process_table_proper_format t = []"
  then show "word_to_markdown_pages_tbl current_lines t = current_lines"
    by (simp add: word_to_markdown_pages_tbl_def Let_def)
next
  show "fst (process_table self w table slide_num shape_idx) =
       (if table = [] \<or> open_error w (data_file self slide_num shape_idx) \<noteq> None
           \<or> dump_error w (data_file self slide_num shape_idx) \<noteq> None
        then None
        else Some (ustr_of ''table'',
          slide_table_lines (map (map slide_cell_text) table) @
            [[], view_data_line
                   (relpath w (data_file self slide_num shape_idx) (output_dir self))]))"
    by (rule process_table_content)
next
  assume "table \<noteq> []"
  then show "slide_table_lines (map (map slide_cell_text) table) \<noteq> []"
    by (cases table) (simp_all add: slide_table_lines_Cons)
next
  show "[] \<notin> set (slide_table_lines (map (map slide_cell_text) table))"
    by (rule slide_table_lines_no_blank)
  show "view_data_line rel \<noteq> []"
    by (simp add: view_data_line_def)
qed

text \<open>
  Claim C2 on a word-document table of one cell, after two lines of a page, on one
  without text, and on a slide table of one cell
\<close>

theorem blank_line_contract_witness:
  "process_table_proper_format (Table [[Cell [ustr_of ''A''] []]]) \<noteq> []
   \<and> last (process_table_proper_format (Table [[Cell [ustr_of ''A''] []]])) \<noteq> []
   \<and> word_to_markdown_pages_tbl [ustr_of ''# Title'', []] (Table [[Cell [ustr_of ''A''] []]])
       = [ustr_of ''# Title'', [], ustr_of ''| A |'', ustr_of ''| --- |'', []]
   \<and> process_table_proper_format (Table [[Cell [] []]]) = []
   \<and> word_to_markdown_pages_tbl [ustr_of ''# Title'', []] (Table [[Cell [] []]])
       = [ustr_of ''# Title'', []]
   \<and> fst (process_table demo_converter demo_world [[ustr_of ''A'']] 1 (PyInt 0))
       = Some (ustr_of ''table'',
           [ustr_of ''| A |'', ustr_of ''|---|'', [],
            view_data_line (ustr_of ''data/table_d1_1_0.json'')])"
proof -
  have a: "process_table_proper_format (Table [[Cell [ustr_of ''A''] []]])
      = [ustr_of ''| A |'', ustr_of ''| --- |'']"
    by (simp add: run_new)
  have b: "process_table_proper_format (Table [[Cell [] []]]) = []"
    by (simp add: run_new)
  note c = blank_line_contract [of "Table [[Cell [ustr_of ''A''] []]]" "[ustr_of ''# Title'', []]"
      demo_converter demo_world "[[ustr_of ''A'']]" 1 "PyInt 0" "[]"]
  from c a
  have 1: "last (process_table_proper_format (Table [[Cell [ustr_of ''A''] []]])) \<noteq> []"
    and 2: "word_to_markdown_pages_tbl [ustr_of ''# Title'', []] (Table [[Cell [ustr_of ''A''] []]])
       = [ustr_of ''# Title'', [], ustr_of ''| A |'', ustr_of ''| --- |'', []]"
    by simp_all
  from blank_line_contract [of "Table [[Cell [] []]]" "[ustr_of ''# Title'', []]"
      demo_converter demo_world "[]" 1 "PyInt 0" "[]"] b
  have 3: "word_to_markdown_pages_tbl [ustr_of ''# Title'', []] (Table [[Cell [] []]])
       = [ustr_of ''# Title'', []]"
    by simp
  have l: "slide_table_lines (map (map slide_cell_text) [[ustr_of ''A'']]) =
      [ustr_of ''| A |'', ustr_of ''|---|'']"
    by (simp add: run_test)
  have r: "relpath demo_world (data_file demo_converter 1 (PyInt 0)) (output_dir demo_converter)
      = ustr_of ''data/table_d1_1_0.json''"
    by (simp add: run_test)
  have o: "open_error demo_world (data_file demo_converter 1 (PyInt 0)) = None"
    "dump_error demo_world (data_file demo_converter 1 (PyInt 0)) = None"
    by (simp_all add: demo_world_def)
  from c o l r have 4: "fst (process_table demo_converter demo_world [[ustr_of ''A'']] 1 (PyInt 0))
       = Some (ustr_of ''table'',
           [ustr_of ''| A |'', ustr_of ''|---|'', [],
            view_data_line (ustr_of ''data/table_d1_1_0.json'')])"
    by simp
  from a 1 2 b 3 4 show ?thesis by simp
qed

text \<open>
  Claim C2 as stated fails for the word-document flattener: for a table of one cell
  \<^verbatim>\<open>A\<close> it returns the header line and the separator line, and the last line is not
  empty.
\<close>

theorem blank_line_counterexample:
  "process_table_proper_format (Table [[Cell [ustr_of ''A''] []]])
     = [ustr_of ''| A |'', ustr_of ''| --- |'']
   \<and> last (process_table_proper_format (Table [[Cell [ustr_of ''A''] []]])) \<noteq> []"
  by (simp add: run_new)

text \<open>
  Claim C7 (purity), as the code has it. The word-document flattener has no side
  effect: run in a state, it returns the lines of \<open>process_table_proper_format\<close> and
  leaves the table of the document, the world outside and every list that existed
  before the call as they were; the only lists it changes are rows it made itself. The
  presentation flattener is not pure. For a table without rows it changes nothing. For
  a table with rows it always leaves a trace: when the data file can be opened and
  written it holds the table's data afterwards and one record is appended to
  \<^verbatim>\<open>chart_metadata\<close>; otherwise the error is printed on one line, \<^verbatim>\<open>None\<close> is
  returned and nothing is recorded, with the files as before when the file could not
  be opened and with the data file cut short when the dump failed. It changes nothing
  else: the other fields of the converter, the other files and the answers of the
  operating system stay as they were.
\<close>

theorem flattener_effects:
  "(case process_table_proper_format_st s of
      (lines, s') \<Rightarrow>
        lines = process_table_proper_format (doc_table s)
        \<and> doc_table s' = doc_table s \<and> env s' = env s
        \<and> next_ref s \<le> next_ref s'
        \<and> (\<forall>r<next_ref s. heap s' r = heap s r))
   \<and> (case process_table self w table slide_num shape_idx of
      (res, self', w') \<Rightarrow>
        (table = [] \<longrightarrow> res = None \<and> self' = self \<and> w' = w)
        \<and> (table \<noteq> [] \<longrightarrow> (self', w') \<noteq> (self, w))
        \<and> (res = None) =
            (table = [] \<or> open_error w (data_file self slide_num shape_idx) \<noteq> None
             \<or> dump_error w (data_file self slide_num shape_idx) \<noteq> None)
        \<and> self'\<lparr>chart_metadata := chart_metadata self\<rparr> = self
        \<and> w'\<lparr>files := files w, stdout := stdout w\<rparr> = w
        \<and> (\<forall>path. path \<noteq> data_file self slide_num shape_idx \<longrightarrow> files w' path = files w path)
        \<and> (res \<noteq> None \<longrightarrow>
              chart_metadata self' =
                chart_metadata self @ [table_metadata self slide_num shape_idx]
              \<and> files w' (data_file self slide_num shape_idx) =
                  Some (Json (table_data_dict self slide_num (map (map slide_cell_text) table)))
              \<and> stdout w' = stdout w)
        \<and> (res = None \<longrightarrow> chart_metadata self' = chart_metadata self)
        \<and> (\<forall>e. table \<noteq> [] \<and> open_error w (data_file self slide_num shape_idx) = Some e \<longrightarrow>
              files w' = files w
              \<and> stdout w' = stdout w @ [ustr_of ''Error processing table: '' @ e])
        \<and> (\<forall>e. table \<noteq> [] \<and> open_error w (data_file self slide_num shape_idx) = None
                \<and> dump_error w (data_file self slide_num shape_idx) = Some e \<longrightarrow>
              files w' = (files w)(data_file self slide_num shape_idx \<mapsto> Truncated)
              \<and> stdout w' = stdout w @ [ustr_of ''Error processing table: '' @ e]))"
proof
  show "case process_table_proper_format_st s of
      (lines, s') \<Rightarrow>
        lines = process_table_proper_format (doc_table s)
        \<and> doc_table s' = doc_table s \<and> env s' = env s
        \<and> next_ref s \<le> next_ref s'
        \<and> (\<forall>r<next_ref s. heap s' r = heap s r)"
    using process_table_proper_format_st [of s]
    by (simp add: split_beta only_fresh_def)
next
  show "case process_table self w table slide_num shape_idx of
      (res, self', w') \<Rightarrow>
        (table = [] \<longrightarrow> res = None \<and> self' = self \<and> w' = w)
        \<and> (table \<noteq> [] \<longrightarrow> (self', w') \<noteq> (self, w))
        \<and> (res = None) =
            (table = [] \<or> open_error w (data_file self slide_num shape_idx) \<noteq> None
             \<or> dump_error w (data_file self slide_num shape_idx) \<noteq> None)
        \<and> self'\<lparr>chart_metadata := chart_metadata self\<rparr> = self
        \<and> w'\<lparr>files := files w, stdout := stdout w\<rparr> = w
        \<and> (\<forall>path. path \<noteq> data_file self slide_num shape_idx \<longrightarrow> files w' path = files w path)
        \<and> (res \<noteq> None \<longrightarrow>
              chart_metadata self' =
                chart_metadata self @ [table_metadata self slide_num shape_idx]
              \<and> files w' (data_file self slide_num shape_idx) =
                  Some (Json (table_data_dict self slide_num (map (map slide_cell_text) table)))
              \<and> stdout w' = stdout w)
        \<and> (res = None \<longrightarrow> chart_metadata self' = chart_metadata self)
        \<and> (\<forall>e. table \<noteq> [] \<and> open_error w (data_file self slide_num shape_idx) = Some e \<longrightarrow>
              files w' = files w
              \<and> stdout w' = stdout w @ [ustr_of ''Error processing table: '' @ e])
        \<and> (\<forall>e. table \<noteq> [] \<and> open_error w (data_file self slide_num shape_idx) = None
                \<and> dump_error w (data_file self slide_num shape_idx) = Some e \<longrightarrow>
              files w' = (files w)(data_file self slide_num shape_idx \<mapsto> Truncated)
              \<and> stdout w' = stdout w @ [ustr_of ''Error processing table: '' @ e])"
  proof (cases "table = []")
    case True
    then show ?thesis by (simp add: process_table_result)
  next
    case False
    have c: "snd (process_table self w table slide_num shape_idx) \<noteq> (self, w)"
      using False by (rule process_table_changes)
    show ?thesis
    proof (cases "open_error w (data_file self slide_num shape_idx)")
      case (Some e)
      with False c show ?thesis by (simp add: process_table_result)
    next
      case None
      show ?thesis
      proof (cases "dump_error w (data_file self slide_num shape_idx)")
        case (Some e)
        with None False c show ?thesis by (simp add: process_table_result)
      next
        case n2: None
        with None False c show ?thesis by (simp add: process_table_result)
      qed
    qed
  qed
qed

text \<open>
  Claim C7 on a word-document table whose second row is padded in the store, next to a
  list that was there before, and on a slide table of one cell, in a world where the
  data file can be written and in one where the dump fails
\<close>

theorem flattener_effects_witness:
  "fst (process_table_proper_format_st demo_state)
     = [ustr_of ''| A | B |'', ustr_of ''| --- | --- |'', ustr_of ''| x | '' @ dash @ ustr_of '' |'']
   \<and> doc_table (snd (process_table_proper_format_st demo_state)) = doc_table demo_state
   \<and> env (snd (process_table_proper_format_st demo_state)) = demo_world
   \<and> heap (snd (process_table_proper_format_st demo_state)) 0 = [ustr_of ''kept'']
   \<and> heap (snd (process_table_proper_format_st demo_state)) 2 = [ustr_of ''x'', dash]
   \<and> chart_metadata (fst (snd (process_table demo_converter demo_world [[ustr_of ''A'']] 1 (PyInt 0))))
       = [table_metadata demo_converter 1 (PyInt 0)]
   \<and> files (snd (snd (process_table demo_converter demo_world [[ustr_of ''A'']] 1 (PyInt 0))))
        (data_file demo_converter 1 (PyInt 0))
       = Some (Json (table_data_dict demo_converter 1 [[ustr_of ''A'']]))
   \<and> process_table demo_converter (demo_world\<lparr>dump_error := (\<lambda>path. Some (ustr_of ''disk full''))\<rparr>)
        [[ustr_of ''A'']] 1 (PyInt 0)
       = (None, demo_converter,
          demo_world\<lparr>dump_error := (\<lambda>path. Some (ustr_of ''disk full'')),
                     files := [data_file demo_converter 1 (PyInt 0) \<mapsto> Truncated],
                     stdout := [ustr_of ''Error processing table: disk full'']\<rparr>)
   \<and> process_table demo_converter demo_world [] 1 (PyInt 0) = (None, demo_converter, demo_world)"
proof -
  note d = flattener_effects [where s = demo_state and self = demo_converter and w = demo_world
      and table = "[[ustr_of ''A'']]" and slide_num = 1 and shape_idx = "PyInt 0"]
  have p: "process_table_proper_format (doc_table demo_state)
     = [ustr_of ''| A | B |'', ustr_of ''| --- | --- |'', ustr_of ''| x | '' @ dash @ ustr_of '' |'']"
    by (simp add: demo_state_def run_new)
  have n: "next_ref demo_state = 1" "heap demo_state 0 = [ustr_of ''kept'']"
    "env demo_state = demo_world"
    by (simp_all add: demo_state_def)
  from d p n have 1: "fst (process_table_proper_format_st demo_state)
     = [ustr_of ''| A | B |'', ustr_of ''| --- | --- |'', ustr_of ''| x | '' @ dash @ ustr_of '' |'']"
    and 2: "doc_table (snd (process_table_proper_format_st demo_state)) = doc_table demo_state"
    and 3: "env (snd (process_table_proper_format_st demo_state)) = demo_world"
    and 4: "heap (snd (process_table_proper_format_st demo_state)) 0 = [ustr_of ''kept'']"
    by (simp_all add: split_beta)
  have 5: "heap (snd (process_table_proper_format_st demo_state)) 2 = [ustr_of ''x'', dash]"
    by (rule demo_run)
  have r: "fst (process_table demo_converter demo_world [[ustr_of ''A'']] 1 (PyInt 0)) \<noteq> None"
    by (simp add: process_table_result demo_world_def)
  from d r
  have 6: "chart_metadata (fst (snd (process_table demo_converter demo_world [[ustr_of ''A'']] 1 (PyInt 0))))
     = [table_metadata demo_converter 1 (PyInt 0)]"
    and 7: "files (snd (snd (process_table demo_converter demo_world [[ustr_of ''A'']] 1 (PyInt 0))))
        (data_file demo_converter 1 (PyInt 0))
     = Some (Json (table_data_dict demo_converter 1 [[ustr_of ''A'']]))"
    by (auto simp: split_beta demo_converter_def slide_cell_text_def py_strip_def py_replace_def
        ustr_of_def is_space_def)
  have 8: "process_table demo_converter (demo_world\<lparr>dump_error := (\<lambda>path. Some (ustr_of ''disk full''))\<rparr>)
        [[ustr_of ''A'']] 1 (PyInt 0)
       = (None, demo_converter,
          demo_world\<lparr>dump_error := (\<lambda>path. Some (ustr_of ''disk full'')),
                     files := [data_file demo_converter 1 (PyInt 0) \<mapsto> Truncated],
                     stdout := [ustr_of ''Error processing table: disk full'']\<rparr>)"
    by (simp add: process_table_result demo_world_def ustr_of_def)
  from flattener_effects [where s = demo_state and self = demo_converter and w = demo_world
      and table = "[]" and slide_num = 1 and shape_idx = "PyInt 0"]
  have 9: "process_table demo_converter demo_world [] 1 (PyInt 0) = (None, demo_converter, demo_world)"
    by (auto simp: split_beta prod_eq_iff)
  from 1 2 3 4 5 6 7 8 9 show ?thesis by blast
qed

text \<open>
  Claim C7 as stated fails for the presentation flattener: for a slide table of one
  cell it appends a record to \<^verbatim>\<open>chart_metadata\<close>, which was empty, and writes the file
  \<^verbatim>\<open>out/data/table_d1_1_0.json\<close>, which did not exist.
\<close>

theorem purity_counterexample:
  "chart_metadata demo_converter = []
   \<and> chart_metadata (fst (snd (process_table demo_converter demo_world [[ustr_of ''A'']] 1 (PyInt 0))))
     = [PyDict [(ustr_of ''doc_id'', PyStr (ustr_of ''d1'')),
                (ustr_of ''slide_num'', PyInt 1),
                (ustr_of ''table_id'', PyInt 0),
                (ustr_of ''filename'', PyStr (ustr_of ''table_d1_1_0'')),
                (ustr_of ''type'', PyStr (ustr_of ''table'')),
                (ustr_of ''path'', PyStr (ustr_of ''out/data/table_d1_1_0.json''))]]
   \<and> files demo_world (ustr_of ''out/data/table_d1_1_0.json'') = None
   \<and> files (snd (snd (process_table demo_converter demo_world [[ustr_of ''A'']] 1 (PyInt 0))))
        (ustr_of ''out/data/table_d1_1_0.json'')
     = Some (Json (PyDict [(ustr_of ''doc_id'', PyStr (ustr_of ''d1'')),
                     (ustr_of ''slide_num'', PyInt 1),
                     (ustr_of ''rows'', PyList [PyList [PyStr (ustr_of ''A'')]])]))"
  by (simp add: run_test Let_def)

end
